theory Spec2Isabelle
  imports Complex_Main "HOL-Library.Log_Nat"
begin

section \<open>A timed LRU cache: the engine and the memoizing wrapper\<close>

text \<open>
  This theory embeds \<^verbatim>\<open>timed_lru_caching.py\<close>: the class \<^verbatim>\<open>TimedLRUCache\<close> (an
  \<^verbatim>\<open>OrderedDict\<close> from keys to timestamped values, with a capacity and a time-to-live)
  and the class \<^verbatim>\<open>_TimedLRUCacheWrapper\<close> that memoizes a function through it.

  Conventions of the embedding:
  \<^item> A Python value of type \<^verbatim>\<open>T | None\<close> is an \<open>'v option\<close>; \<open>None\<close> is Python's
    \<^verbatim>\<open>None\<close>. Stored values have this type too, since nothing in the source keeps
    \<^verbatim>\<open>None\<close> out of the cache.
  \<^item> A time is a finite binary64 number, taken as the real number it denotes. Every
    reading of \<^verbatim>\<open>time.time()\<close> is an explicit argument of the operation that reads the
    clock. Comparison of two such numbers is the order of the reals. Subtraction is the
    binary64 one, \<open>fsub\<close>: the exact difference rounded to the nearest binary64 number.
    Infinities and NaN as inputs are not modelled.
  \<^item> Mutation is state passing: an operation takes the object and returns the new one.
  \<^item> An exception is the left injection of a sum.
\<close>

subsection \<open>Exceptions\<close>

datatype exn = KeyError | Raised string

subsection \<open>The part of \<^verbatim>\<open>collections.OrderedDict\<close> the source uses\<close>

text \<open>
  An ordered dictionary is the list of its items, oldest first. The keys of a
  dictionary are distinct; \<open>od_invar\<close> says so.
\<close>

type_synonym ('k, 'a) odict = "('k \<times> 'a) list"

definition od_invar :: "('k, 'a) odict \<Rightarrow> bool" where
  "od_invar d = distinct (map fst d)"

text \<open>\<^verbatim>\<open>key in d\<close>\<close>

definition od_contains :: "'k \<Rightarrow> ('k, 'a) odict \<Rightarrow> bool" where
  "od_contains key d = (map_of d key \<noteq> None)"

text \<open>\<^verbatim>\<open>d[key]\<close>\<close>

definition od_getitem :: "('k, 'a) odict \<Rightarrow> 'k \<Rightarrow> exn + 'a" where
  "od_getitem d key = (case map_of d key of None \<Rightarrow> Inl KeyError | Some x \<Rightarrow> Inr x)"

text \<open>\<^verbatim>\<open>d.pop(key)\<close>, without a default: the value and the dictionary without the key.\<close>

definition od_pop :: "'k \<Rightarrow> ('k, 'a) odict \<Rightarrow> exn + ('a \<times> ('k, 'a) odict)" where
  "od_pop key d =
     (case map_of d key of
        None \<Rightarrow> Inl KeyError
      | Some x \<Rightarrow> Inr (x, filter (\<lambda>p. fst p \<noteq> key) d))"

text \<open>\<^verbatim>\<open>d.move_to_end(key)\<close>: the item goes to the right end.\<close>

definition od_move_to_end :: "'k \<Rightarrow> ('k, 'a) odict \<Rightarrow> exn + ('k, 'a) odict" where
  "od_move_to_end key d =
     (case map_of d key of
        None \<Rightarrow> Inl KeyError
      | Some x \<Rightarrow> Inr (filter (\<lambda>p. fst p \<noteq> key) d @ [(key, x)]))"

text \<open>\<^verbatim>\<open>d.popitem(last=False)\<close>: the first item and the rest.\<close>

definition od_popitem_first :: "('k, 'a) odict \<Rightarrow> exn + (('k \<times> 'a) \<times> ('k, 'a) odict)" where
  "od_popitem_first d = (case d of [] \<Rightarrow> Inl KeyError | p # ps \<Rightarrow> Inr (p, ps))"

text \<open>
  \<^verbatim>\<open>d[key] = x\<close>: an existing key keeps its position and takes the new value, a new
  key is appended.
\<close>

fun od_setitem :: "'k \<Rightarrow> 'a \<Rightarrow> ('k, 'a) odict \<Rightarrow> ('k, 'a) odict" where
  "od_setitem key x [] = [(key, x)]"
| "od_setitem key x (p # ps) =
     (if fst p = key then (key, x) # ps else p # od_setitem key x ps)"

subsection \<open>Binary64 subtraction\<close>

text \<open>
  Python's \<^verbatim>\<open>float\<close> is IEEE 754 binary64: 53 significant bits, least exponent \<open>-1022\<close>,
  results rounded to the nearest representable number, ties to the one with an even
  significand. \<open>binade x\<close> is the exponent \<open>e\<close> with \<open>pow2 e \<le> \<bar>x\<bar> < pow2 (e + 1)\<close>, where
  \<open>pow2 e\<close> is the power of two with exponent \<open>e\<close>; the representable numbers around \<open>x\<close>
  are the multiples of \<open>pow2 (e - 52)\<close>, and of \<open>pow2 (- 1074)\<close> in the subnormal range. A
  result of magnitude \<open>pow2 1024\<close> or more stands for an infinity: it
  compares with every finite number as the infinity does.
\<close>

definition pow2 :: "int \<Rightarrow> real" where
  "pow2 k = (if 0 \<le> k then 2 ^ nat k else 1 / 2 ^ nat (- k))"

definition binade :: "real \<Rightarrow> int" where
  "binade x =
     (if 1 \<le> \<bar>x\<bar> then bitlen \<lfloor>\<bar>x\<bar>\<rfloor> - 1 else - bitlen (\<lceil>1 / \<bar>x\<bar>\<rceil> - 1))"

definition round_even :: "real \<Rightarrow> int" where
  "round_even r =
     (let f = \<lfloor>r\<rfloor>; d = r - of_int f in
      if d < 1 / 2 then f else if 1 / 2 < d then f + 1 else if even f then f else f + 1)"

definition round64 :: "real \<Rightarrow> real" where
  "round64 x =
     (if x = 0 then 0
      else let q = pow2 (max (binade x) (- 1022) - 52) in q * of_int (round_even (x / q)))"

text \<open>\<^verbatim>\<open>a - b\<close> on two floats\<close>

definition fsub :: "real \<Rightarrow> real \<Rightarrow> real" where
  "fsub a b = round64 (a - b)"

subsection \<open>The engine: \<^verbatim>\<open>TimedLRUCache\<close>\<close>

datatype 'v TimedLRUCacheItem = Item (val: "'v option") (time_added: real)

record ('k, 'v) TimedLRUCache =
  max_size :: "int option"
  ttl :: "real option"
  cache :: "('k, 'v TimedLRUCacheItem) odict"

text \<open>\<^verbatim>\<open>__init__\<close>\<close>

definition TimedLRUCache_init :: "int option \<Rightarrow> real option \<Rightarrow> ('k, 'v) TimedLRUCache" where
  "TimedLRUCache_init ms t = \<lparr>max_size = ms, ttl = t, cache = []\<rparr>"

text \<open>
  The test \<^verbatim>\<open>self._ttl and ct - item.time_added >= self._ttl\<close>. Python's \<^verbatim>\<open>and\<close> takes
  the truth value of its left operand: \<^verbatim>\<open>None\<close> and \<^verbatim>\<open>0\<close> are false, every other
  number is true. The difference is the binary64 one.
\<close>

definition expired :: "real option \<Rightarrow> real \<Rightarrow> real \<Rightarrow> bool" where
  "expired t ct ta = (case t of None \<Rightarrow> False | Some x \<Rightarrow> x \<noteq> 0 \<and> fsub ct ta \<ge> x)"

text \<open>The test \<^verbatim>\<open>self._max_size and len(self._cache) == self._max_size\<close>.\<close>

definition cap_reached :: "int option \<Rightarrow> ('k, 'a) odict \<Rightarrow> bool" where
  "cap_reached ms d = (case ms of None \<Rightarrow> False | Some n \<Rightarrow> n \<noteq> 0 \<and> int (length d) = n)"

text \<open>\<^verbatim>\<open>get\<close>; \<open>ct\<close> is the clock reading taken on entry.\<close>

definition TimedLRUCache_get ::
  "real \<Rightarrow> ('k, 'v) TimedLRUCache \<Rightarrow> 'k \<Rightarrow> exn + ('v option \<times> ('k, 'v) TimedLRUCache)" where
  "TimedLRUCache_get ct c key =
     (if \<not> od_contains key (cache c) then Inr (None, c)
      else
        case od_getitem (cache c) key of
          Inl e \<Rightarrow> Inl e
        | Inr item \<Rightarrow>
            if expired (ttl c) ct (time_added item) then
              (case od_pop key (cache c) of
                 Inl e \<Rightarrow> Inl e
               | Inr (_, d) \<Rightarrow> Inr (None, c\<lparr>cache := d\<rparr>))
            else
              (case od_move_to_end key (cache c) of
                 Inl e \<Rightarrow> Inl e
               | Inr d \<Rightarrow> Inr (val item, c\<lparr>cache := d\<rparr>)))"

text \<open>
  \<^verbatim>\<open>add\<close>; \<open>now\<close> is what \<^verbatim>\<open>time.time()\<close> returns if the call reads the clock, which it
  does only when no \<^verbatim>\<open>time_added\<close> is given.
\<close>

definition stamp :: "real \<Rightarrow> real option \<Rightarrow> real" where
  "stamp now ts = (case ts of None \<Rightarrow> now | Some t \<Rightarrow> t)"

definition TimedLRUCache_add ::
  "real \<Rightarrow> ('k, 'v) TimedLRUCache \<Rightarrow> 'k \<Rightarrow> 'v option \<Rightarrow> real option \<Rightarrow> exn + ('k, 'v) TimedLRUCache" where
  "TimedLRUCache_add now c key v ts =
     (let ta = stamp now ts in
      case (if cap_reached (max_size c) (cache c)
            then (case od_popitem_first (cache c) of Inl e \<Rightarrow> Inl e | Inr (_, d) \<Rightarrow> Inr d)
            else Inr (cache c)) of
        Inl e \<Rightarrow> Inl e
      | Inr d1 \<Rightarrow>
          (case od_move_to_end key (od_setitem key (Item v ta) d1) of
             Inl e \<Rightarrow> Inl e
           | Inr d2 \<Rightarrow> Inr (c\<lparr>cache := d2\<rparr>)))"

text \<open>\<^verbatim>\<open>__len__\<close>\<close>

definition TimedLRUCache_len :: "('k, 'v) TimedLRUCache \<Rightarrow> int" where
  "TimedLRUCache_len c = int (length (cache c))"

text \<open>\<^verbatim>\<open>clear\<close>\<close>

definition TimedLRUCache_clear :: "('k, 'v) TimedLRUCache \<Rightarrow> ('k, 'v) TimedLRUCache" where
  "TimedLRUCache_clear c = c\<lparr>cache := []\<rparr>"

subsection \<open>The wrapper: \<^verbatim>\<open>_TimedLRUCacheWrapper\<close>\<close>

text \<open>
  The arguments of a call are Python values. The cache key is a tuple of them, so the
  embedding needs tuples and strings among the values.
\<close>

datatype pyval = PNone | PInt int | PStr string | PTuple "pyval list"

text \<open>
  The wrapped function may have effects, so it is a function on a state \<open>'s\<close> of its
  own: it takes the positional and the keyword arguments and the state, and returns
  the new state with either an exception or the pair of a result and an optional
  timestamp.
\<close>

type_synonym ('v, 's) wrapped_fn =
  "pyval list \<Rightarrow> (string \<times> pyval) list \<Rightarrow> 's \<Rightarrow> (exn + ('v option \<times> real option)) \<times> 's"

record ('v, 's) TimedLRUCacheWrapper =
  wrapped :: "('v, 's) wrapped_fn"
  timed_lru_cache :: "(pyval list, 'v) TimedLRUCache"
  hits :: int
  misses :: int
  wrapper_max_size :: "int option"

record TimedLRUCacheInfo =
  info_hits :: int
  info_misses :: int
  current_size :: int
  info_max_size :: "int option"

definition Wrapper_init ::
  "('v, 's) wrapped_fn \<Rightarrow> int option \<Rightarrow> real option \<Rightarrow> ('v, 's) TimedLRUCacheWrapper" where
  "Wrapper_init fn ms t =
     \<lparr>wrapped = fn, timed_lru_cache = TimedLRUCache_init ms t,
      hits = 0, misses = 0, wrapper_max_size = ms\<rparr>"

text \<open>\<^verbatim>\<open>args + tuple(kwargs.items())\<close>\<close>

definition call_args :: "pyval list \<Rightarrow> (string \<times> pyval) list \<Rightarrow> pyval list" where
  "call_args args kwargs = args @ map (\<lambda>(name, v). PTuple [PStr name, v]) kwargs"

text \<open>
  \<^verbatim>\<open>__call__\<close>; \<open>ct\<close> is the clock reading of the lookup, \<open>now\<close> the one of the insertion
  after the wrapped function has returned. The result is the outcome of the call, the
  wrapper afterwards and the state of the wrapped function afterwards.
\<close>

definition Wrapper_call ::
  "real \<Rightarrow> real \<Rightarrow> ('v, 's) TimedLRUCacheWrapper \<Rightarrow> pyval list \<Rightarrow> (string \<times> pyval) list \<Rightarrow> 's
     \<Rightarrow> (exn + 'v option) \<times> ('v, 's) TimedLRUCacheWrapper \<times> 's" where
  "Wrapper_call ct now w args kwargs s =
     (let key = call_args args kwargs in
      case TimedLRUCache_get ct (timed_lru_cache w) key of
        Inl e \<Rightarrow> (Inl e, w, s)
      | Inr (res, c1) \<Rightarrow>
          let w1 = w\<lparr>timed_lru_cache := c1\<rparr> in
          if res = None then
            let w2 = w1\<lparr>misses := misses w1 + 1\<rparr> in
            case wrapped w2 args kwargs s of
              (Inl e, s') \<Rightarrow> (Inl e, w2, s')
            | (Inr (res', add_ts), s') \<Rightarrow>
                (case TimedLRUCache_add now (timed_lru_cache w2) key res' add_ts of
                   Inl e \<Rightarrow> (Inl e, w2, s')
                 | Inr c2 \<Rightarrow> (Inr res', w2\<lparr>timed_lru_cache := c2\<rparr>, s'))
          else (Inr res, w1\<lparr>hits := hits w1 + 1\<rparr>, s))"

text \<open>\<^verbatim>\<open>cache_info\<close>\<close>

definition Wrapper_cache_info :: "('v, 's) TimedLRUCacheWrapper \<Rightarrow> TimedLRUCacheInfo" where
  "Wrapper_cache_info w =
     \<lparr>info_hits = hits w, info_misses = misses w,
      current_size = TimedLRUCache_len (timed_lru_cache w),
      info_max_size = wrapper_max_size w\<rparr>"

text \<open>\<^verbatim>\<open>clear\<close> of the wrapper\<close>

definition Wrapper_clear :: "('v, 's) TimedLRUCacheWrapper \<Rightarrow> ('v, 's) TimedLRUCacheWrapper" where
  "Wrapper_clear w =
     w\<lparr>timed_lru_cache := TimedLRUCache_clear (timed_lru_cache w), hits := 0, misses := 0\<rparr>"

subsection \<open>Sequences of engine operations\<close>

text \<open>
  An operation of the engine with its arguments and the clock reading it makes; what
  it returns; and the run of a list of operations, which stops at the first exception.
\<close>

datatype ('k, 'v) op = Get real 'k | Add real 'k "'v option" "real option" | Len | Clear

datatype 'v out = Got "'v option" | Size int | Unit

fun step ::
  "('k, 'v) op \<Rightarrow> ('k, 'v) TimedLRUCache \<Rightarrow> exn + ('v out \<times> ('k, 'v) TimedLRUCache)" where
  "step (Get ct key) c =
     (case TimedLRUCache_get ct c key of Inl e \<Rightarrow> Inl e | Inr (r, c') \<Rightarrow> Inr (Got r, c'))"
| "step (Add now key v ts) c =
     (case TimedLRUCache_add now c key v ts of Inl e \<Rightarrow> Inl e | Inr c' \<Rightarrow> Inr (Unit, c'))"
| "step Len c = Inr (Size (TimedLRUCache_len c), c)"
| "step Clear c = Inr (Unit, TimedLRUCache_clear c)"

fun exec ::
  "('k, 'v) op list \<Rightarrow> ('k, 'v) TimedLRUCache \<Rightarrow> exn + ('v out list \<times> ('k, 'v) TimedLRUCache)" where
  "exec [] c = Inr ([], c)"
| "exec (x # xs) c =
     (case step x c of
        Inl e \<Rightarrow> Inl e
      | Inr (y, c') \<Rightarrow>
          (case exec xs c' of Inl e \<Rightarrow> Inl e | Inr (ys, c'') \<Rightarrow> Inr (y # ys, c'')))"

text \<open>
  A wrapped function instrumented with a counter of its invocations, kept beside its
  own state.
\<close>

definition counting :: "('v, 's) wrapped_fn \<Rightarrow> ('v, nat \<times> 's) wrapped_fn" where
  "counting fn args kwargs ns =
     (case fn args kwargs (snd ns) of (r, s') \<Rightarrow> (r, (Suc (fst ns), s')))"

text \<open>Some wrapped functions and wrappers for concrete runs.\<close>

definition returning :: "'v option \<Rightarrow> real option \<Rightarrow> ('v, 's) wrapped_fn" where
  "returning r ts args kwargs s = (Inr (r, ts), s)"

definition raising :: "exn \<Rightarrow> ('v, 's) wrapped_fn" where
  "raising e args kwargs s = (Inl e, s)"

definition stale_raising_wrapper :: "(nat, unit) TimedLRUCacheWrapper" where
  "stale_raising_wrapper =
     \<lparr>wrapped = raising (Raised ''boom''),
      timed_lru_cache = \<lparr>max_size = None, ttl = Some 5, cache = [([], Item (Some 1) 0)]\<rparr>,
      hits = 0, misses = 0, wrapper_max_size = None\<rparr>"

definition none_run1 ::
  "(exn + nat option) \<times> (nat, nat \<times> unit) TimedLRUCacheWrapper \<times> (nat \<times> unit)" where
  "none_run1 =
     Wrapper_call 1 1 (Wrapper_init (counting (returning None None)) None None) [] [] (0, ())"

definition none_run2 ::
  "(exn + nat option) \<times> (nat, nat \<times> unit) TimedLRUCacheWrapper \<times> (nat \<times> unit)" where
  "none_run2 = Wrapper_call 2 2 (fst (snd none_run1)) [] [] (snd (snd none_run1))"

text \<open>
  The \<^verbatim>\<open>add\<close> operations that insert the keys \<open>ks\<close> in order, each key with the clock
  reading, the value and the timestamp argument that the three functions give it; and
  the item such an \<^verbatim>\<open>add\<close> stores.
\<close>

definition add_ops ::
  "('k \<Rightarrow> real) \<Rightarrow> ('k \<Rightarrow> 'v option) \<Rightarrow> ('k \<Rightarrow> real option) \<Rightarrow> 'k list \<Rightarrow> ('k, 'v) op list" where
  "add_ops now v ts ks = map (\<lambda>k. Add (now k) k (v k) (ts k)) ks"

definition entry ::
  "('k \<Rightarrow> real) \<Rightarrow> ('k \<Rightarrow> 'v option) \<Rightarrow> ('k \<Rightarrow> real option) \<Rightarrow> 'k \<Rightarrow> 'k \<times> 'v TimedLRUCacheItem" where
  "entry now v ts k = (k, Item (v k) (stamp (now k) (ts k)))"

section \<open>Basic facts\<close>

subsection \<open>Binary64 rounding\<close>

text \<open>The equations that evaluate \<open>fsub\<close> on numerals.\<close>

lemmas fsub_eval =
  fsub_def round64_def binade_def pow2_def round_even_def compute_bitlen Let_def

lemma pow2_powr: "pow2 k = 2 powr (of_int k)"
  by (simp add: pow2_def powr_int)

lemma pow2_pos: "0 < pow2 k"
  by (simp add: pow2_powr)

lemma pow2_mono: "a \<le> b \<Longrightarrow> pow2 a \<le> pow2 b"
  by (simp add: pow2_powr)

lemma pow2_add: "pow2 (a + b) = pow2 a * pow2 b"
  by (simp add: pow2_powr powr_add)

lemma pow2_nat: "pow2 (int n) = 2 ^ n"
  by (simp add: pow2_def)

lemma binade_bounds:
  assumes "0 < x"
  shows "pow2 (binade x) \<le> x \<and> x < pow2 (binade x + 1)"
proof (cases "1 \<le> x")
  case True
  define n where "n = \<lfloor>x\<rfloor>"
  have n: "0 < n" using True by (simp add: n_def)
  from bitlen_bounds [OF n]
  have lo: "2 ^ nat (bitlen n - 1) \<le> n" and hi: "n < 2 ^ nat (bitlen n)" by simp_all
  have b: "binade x = bitlen n - 1" using True assms by (simp add: binade_def n_def)
  have bl: "0 < bitlen n" using n bitlen_nonneg [of n] bitlen_eq_zero_iff [of n] by linarith
  have "pow2 (bitlen n - 1) = of_int (2 ^ nat (bitlen n - 1))"
    using bl by (simp add: pow2_def)
  also have "\<dots> \<le> of_int n" using lo by (simp only: of_int_le_iff)
  also have "\<dots> \<le> x" by (simp add: n_def)
  finally have 1: "pow2 (binade x) \<le> x" by (simp add: b)
  have "x < of_int (n + 1)" by (simp add: n_def)
  also have "\<dots> \<le> of_int (2 ^ nat (bitlen n))" using hi by (simp only: of_int_le_iff)
  also have "\<dots> = pow2 (bitlen n)" using bl by (simp add: pow2_def)
  finally have 2: "x < pow2 (binade x + 1)" by (simp add: b)
  from 1 2 show ?thesis ..
next
  case False
  define z where "z = 1 / x"
  define m where "m = \<lceil>z\<rceil> - 1"
  have z: "1 < z" using False assms by (simp add: z_def)
  then have m: "0 < m" by (simp add: m_def; linarith)
  from bitlen_bounds [OF m]
  have lo: "2 ^ nat (bitlen m - 1) \<le> m" and hi: "m < 2 ^ nat (bitlen m)" by simp_all
  have bl: "0 < bitlen m" using m bitlen_nonneg [of m] bitlen_eq_zero_iff [of m] by linarith
  have b: "binade x = - bitlen m" using False assms by (simp add: binade_def m_def z_def)
  have x: "x = 1 / z" using assms by (simp add: z_def)
  have "z \<le> of_int (m + 1)" by (simp add: m_def)
  also have "\<dots> \<le> of_int (2 ^ nat (bitlen m))" using hi by (simp only: of_int_le_iff)
  finally have "z \<le> 2 ^ nat (bitlen m)" by simp
  then have "1 / 2 ^ nat (bitlen m) \<le> 1 / z" using z by (intro divide_left_mono) simp_all
  moreover have "pow2 (- bitlen m) = 1 / 2 ^ nat (bitlen m)" using bl by (simp add: pow2_def)
  ultimately have "pow2 (- bitlen m) \<le> x" by (simp add: x)
  then have 1: "pow2 (binade x) \<le> x" by (simp only: b)
  have "of_int (2 ^ nat (bitlen m - 1)) \<le> (of_int m :: real)" using lo by (simp only: of_int_le_iff)
  also have "(of_int m :: real) < z" by (simp add: m_def; linarith)
  finally have lt: "2 ^ nat (bitlen m - 1) < z" by simp
  from lt z have "1 / z < 1 / 2 ^ nat (bitlen m - 1)"
    by (intro divide_strict_left_mono) simp_all
  moreover have "pow2 (- bitlen m + 1) = 1 / 2 ^ nat (bitlen m - 1)"
    using bl by (cases "bitlen m = 1") (simp_all add: pow2_def)
  ultimately have "x < pow2 (- bitlen m + 1)" by (simp add: x)
  then have 2: "x < pow2 (binade x + 1)" by (simp only: b)
  from 1 2 show ?thesis ..
qed

lemma binade_mono:
  assumes "0 < x" and "x \<le> y"
  shows "binade x \<le> binade y"
proof (rule ccontr)
  assume "\<not> binade x \<le> binade y"
  then have "binade y + 1 \<le> binade x" by simp
  then have "pow2 (binade y + 1) \<le> pow2 (binade x)" by (rule pow2_mono)
  also have "\<dots> \<le> x" using binade_bounds [OF assms(1)] by simp
  also have "\<dots> \<le> y" by (rule assms(2))
  also have "\<dots> < pow2 (binade y + 1)" using binade_bounds [of y] assms by simp
  finally show False by simp
qed

lemma round_even_ge: "of_int k \<le> r \<Longrightarrow> k \<le> round_even r"
proof -
  assume "of_int k \<le> r"
  then have "k \<le> \<lfloor>r\<rfloor>" by (simp add: le_floor_iff)
  moreover have "\<lfloor>r\<rfloor> \<le> round_even r" by (simp add: round_even_def Let_def)
  ultimately show ?thesis by simp
qed

lemma round64_pos:
  assumes "0 < x"
  shows "round64 x = pow2 (max (binade x) (- 1022) - 52)
           * of_int (round_even (x / pow2 (max (binade x) (- 1022) - 52)))"
  using assms by (simp add: round64_def Let_def)

lemma round64_ge_double:
  assumes "0 < T" and "round64 T = T" and "T \<le> y"
  shows "T \<le> round64 y"
proof -
  have y: "0 < y" using assms by simp
  define eT where "eT = max (binade T) (- 1022)"
  define ey where "ey = max (binade y) (- 1022)"
  have le: "eT \<le> ey"
    using binade_mono [OF assms(1,3)] by (simp add: eT_def ey_def)
  have ry: "round64 y = pow2 (ey - 52) * of_int (round_even (y / pow2 (ey - 52)))"
    using round64_pos [OF y] by (simp add: ey_def)
  have rT: "T = pow2 (eT - 52) * of_int (round_even (T / pow2 (eT - 52)))"
    using round64_pos [OF assms(1)] assms(2) by (simp add: eT_def)
  show ?thesis
  proof (cases "eT = ey")
    case True
    define q where "q = pow2 (ey - 52)"
    have q: "0 < q" by (simp add: q_def pow2_pos)
    define m where "m = round_even (T / q)"
    have Tm: "T = q * of_int m" using rT True by (simp add: q_def m_def)
    have "of_int m = T / q" using Tm q by simp
    also have "\<dots> \<le> y / q" using assms(3) q by (simp add: divide_right_mono)
    finally have "m \<le> round_even (y / q)" by (rule round_even_ge)
    then have "q * of_int m \<le> q * of_int (round_even (y / q))"
      using q by simp
    then show ?thesis using Tm ry by (simp add: q_def)
  next
    case False
    with le have lt: "eT < ey" by simp
    then have eyb: "ey = binade y" and bT: "binade T + 1 \<le> binade y"
      by (auto simp: eT_def ey_def)
    define q where "q = pow2 (ey - 52)"
    have q: "0 < q" by (simp add: q_def pow2_pos)
    have split: "pow2 ey = q * of_int (2 ^ 52)"
      using pow2_add [of "ey - 52" 52] pow2_nat [of 52] by (simp add: q_def)
    have "pow2 ey \<le> y" using binade_bounds [OF y] by (simp add: eyb)
    then have "of_int (2 ^ 52) \<le> y / q" using q by (simp add: split pos_le_divide_eq mult.commute)
    then have "2 ^ 52 \<le> round_even (y / q)" by (rule round_even_ge)
    then have "(of_int (2 ^ 52) :: real) \<le> of_int (round_even (y / q))"
      by (simp only: of_int_le_iff)
    then have "q * of_int (2 ^ 52) \<le> q * of_int (round_even (y / q))"
      using q by simp
    then have "pow2 ey \<le> round64 y" using ry split by (simp add: q_def)
    moreover have "T < pow2 (binade T + 1)" using binade_bounds [OF assms(1)] by simp
    moreover have "pow2 (binade T + 1) \<le> pow2 ey" using bT by (simp add: eyb pow2_mono)
    ultimately show ?thesis by simp
  qed
qed

lemma fsub_ge_double:
  "0 < T \<Longrightarrow> round64 T = T \<Longrightarrow> T \<le> a - b \<Longrightarrow> T \<le> fsub a b"
  by (simp add: fsub_def round64_ge_double)

subsection \<open>Ordered dictionaries\<close>

lemma od_contains_iff: "od_contains key d \<longleftrightarrow> key \<in> fst ` set d"
  by (simp add: od_contains_def map_of_eq_None_iff)

lemma filter_od_setitem:
  "filter (\<lambda>p. fst p \<noteq> key) (od_setitem key x d) = filter (\<lambda>p. fst p \<noteq> key) d"
  by (induction d) auto

lemma map_of_od_setitem: "map_of (od_setitem key x d) key = Some x"
  by (induction d) auto

lemma od_move_to_end_setitem:
  "od_move_to_end key (od_setitem key x d) = Inr (filter (\<lambda>p. fst p \<noteq> key) d @ [(key, x)])"
  by (simp add: od_move_to_end_def map_of_od_setitem filter_od_setitem)

lemma od_popitem_first_nonempty: "d \<noteq> [] \<Longrightarrow> od_popitem_first d = Inr (hd d, tl d)"
  by (cases d) (simp_all add: od_popitem_first_def)

lemma cap_reached_nonempty: "cap_reached ms d \<Longrightarrow> d \<noteq> []"
  by (auto simp: cap_reached_def split: option.splits)

lemma od_invar_filter: "od_invar d \<Longrightarrow> od_invar (filter P d)"
  by (simp add: od_invar_def distinct_map_filter)

lemma od_invar_tl: "od_invar d \<Longrightarrow> od_invar (tl d)"
  by (cases d) (simp_all add: od_invar_def)

lemma od_invar_move: "od_invar d \<Longrightarrow> od_invar (filter (\<lambda>p. fst p \<noteq> key) d @ [(key, x)])"
  by (auto simp: od_invar_def distinct_map_filter)

subsection \<open>The engine's operations in closed form\<close>

text \<open>
  None of the \<^verbatim>\<open>KeyError\<close> branches can be taken: each dictionary operation that could
  raise is guarded by the test before it. So \<^verbatim>\<open>get\<close> and \<^verbatim>\<open>add\<close> always return.
\<close>

lemma get_absent:
  "\<not> od_contains key (cache c) \<Longrightarrow> TimedLRUCache_get ct c key = Inr (None, c)"
  by (simp add: TimedLRUCache_get_def)

lemma get_expired:
  "map_of (cache c) key = Some item \<Longrightarrow> expired (ttl c) ct (time_added item) \<Longrightarrow>
   TimedLRUCache_get ct c key = Inr (None, c\<lparr>cache := filter (\<lambda>p. fst p \<noteq> key) (cache c)\<rparr>)"
  by (simp add: TimedLRUCache_get_def od_contains_def od_getitem_def od_pop_def)

lemma get_fresh:
  "map_of (cache c) key = Some item \<Longrightarrow> \<not> expired (ttl c) ct (time_added item) \<Longrightarrow>
   TimedLRUCache_get ct c key =
     Inr (val item, c\<lparr>cache := filter (\<lambda>p. fst p \<noteq> key) (cache c) @ [(key, item)]\<rparr>)"
  by (simp add: TimedLRUCache_get_def od_contains_def od_getitem_def od_move_to_end_def)

lemma add_closed:
  "TimedLRUCache_add now c key v ts =
     Inr (c\<lparr>cache :=
            filter (\<lambda>p. fst p \<noteq> key)
              (if cap_reached (max_size c) (cache c) then tl (cache c) else cache c)
            @ [(key, Item v (stamp now ts))]\<rparr>)"
  by (simp add: TimedLRUCache_add_def Let_def od_move_to_end_setitem
      od_popitem_first_nonempty cap_reached_nonempty)

lemma get_cases:
  obtains (absent) "\<not> od_contains key (cache c)" "TimedLRUCache_get ct c key = Inr (None, c)"
  | (stale) item where "map_of (cache c) key = Some item" "expired (ttl c) ct (time_added item)"
      "TimedLRUCache_get ct c key = Inr (None, c\<lparr>cache := filter (\<lambda>p. fst p \<noteq> key) (cache c)\<rparr>)"
  | (fresh) item where "map_of (cache c) key = Some item" "\<not> expired (ttl c) ct (time_added item)"
      "TimedLRUCache_get ct c key =
         Inr (val item, c\<lparr>cache := filter (\<lambda>p. fst p \<noteq> key) (cache c) @ [(key, item)]\<rparr>)"
proof (cases "map_of (cache c) key")
  case None
  then have nc: "\<not> od_contains key (cache c)" by (simp add: od_contains_def)
  show ?thesis by (rule absent [OF nc get_absent [OF nc]])
next
  case (Some item)
  show ?thesis
  proof (cases "expired (ttl c) ct (time_added item)")
    case True
    show ?thesis by (rule stale [OF Some True get_expired [OF Some True]])
  next
    case False
    show ?thesis by (rule fresh [OF Some False get_fresh [OF Some False]])
  qed
qed

lemma map_of_filter_neq: "map_of (filter (\<lambda>p. fst p \<noteq> key) d) key = None"
  by (induction d) auto

lemma map_of_moved: "map_of (filter (\<lambda>p. fst p \<noteq> key) d @ [(key, x)]) key = Some x"
  by (simp add: map_of_filter_neq map_add_def)

lemma map_of_moved_other:
  "k' \<noteq> key \<Longrightarrow> map_of (filter (\<lambda>p. fst p \<noteq> key) d @ [(key, x)]) k' = map_of d k'"
  by (induction d) (auto simp: map_add_def split: option.splits)

lemma not_contains_filter: "\<not> od_contains key (filter (\<lambda>p. fst p \<noteq> key) d)"
  by (simp add: od_contains_def map_of_filter_neq)

lemma contains_moved: "od_contains key (filter (\<lambda>p. fst p \<noteq> key) d @ [(key, x)])"
  by (simp add: od_contains_def map_of_moved)

lemma add_entry:
  assumes "TimedLRUCache_add now c key v ts = Inr c1"
  shows "map_of (cache c1) key = Some (Item v (stamp now ts))"
    and "ttl c1 = ttl c" and "max_size c1 = max_size c"
    and "filter (\<lambda>p. fst p \<noteq> key) (cache c1) @ [(key, Item v (stamp now ts))] = cache c1"
  using assms unfolding add_closed by (auto simp: map_of_filter_neq map_add_def)

lemma od_contains_hd_tl:
  "od_invar d \<Longrightarrow> d \<noteq> [] \<Longrightarrow> \<not> od_contains (fst (hd d)) (tl d)"
  by (cases d) (auto simp: od_invar_def od_contains_iff)

lemma od_contains_moved_other:
  "k' \<noteq> key \<Longrightarrow>
   od_contains k' (filter (\<lambda>p. fst p \<noteq> key) d @ [(key, x)]) = od_contains k' d"
  using map_of_moved_other [of k' key d x] by (simp add: od_contains_def del: map_of_append)

lemma filter_absent:
  "\<not> od_contains key d \<Longrightarrow> filter (\<lambda>p. fst p \<noteq> key) d = d"
  by (induction d) (auto simp: od_contains_iff)

lemma length_filter_neq:
  "od_invar d \<Longrightarrow> od_contains key d \<Longrightarrow>
   Suc (length (filter (\<lambda>p. fst p \<noteq> key) d)) = length d"
proof (induction d)
  case Nil
  then show ?case by (simp add: od_contains_def)
next
  case (Cons p d)
  show ?case
  proof (cases "fst p = key")
    case True
    with Cons.prems(1) have "\<not> od_contains key d"
      by (auto simp: od_invar_def od_contains_iff)
    with True show ?thesis by (simp add: filter_absent)
  next
    case False
    with Cons.prems have "od_invar d" "od_contains key d"
      by (auto simp: od_invar_def od_contains_iff)
    with Cons.IH False show ?thesis by simp
  qed
qed

lemma get_returns: "\<exists>r c'. TimedLRUCache_get ct c key = Inr (r, c')"
  by (cases rule: get_cases [of key c ct]) simp_all

lemma call_miss:
  assumes "TimedLRUCache_get ct (timed_lru_cache w) (call_args args kwargs) = Inr (None, c1)"
  shows "Wrapper_call ct now w args kwargs s =
     (case wrapped w args kwargs s of
        (Inl e, s') \<Rightarrow> (Inl e, w\<lparr>timed_lru_cache := c1, misses := misses w + 1\<rparr>, s')
      | (Inr (res', add_ts), s') \<Rightarrow>
          (case TimedLRUCache_add now c1 (call_args args kwargs) res' add_ts of
             Inl e \<Rightarrow> (Inl e, w\<lparr>timed_lru_cache := c1, misses := misses w + 1\<rparr>, s')
           | Inr c2 \<Rightarrow> (Inr res', w\<lparr>timed_lru_cache := c2, misses := misses w + 1\<rparr>, s')))"
  by (simp add: Wrapper_call_def Let_def assms split: prod.splits sum.splits)

lemma call_hit:
  assumes "TimedLRUCache_get ct (timed_lru_cache w) (call_args args kwargs) = Inr (Some v, c1)"
  shows "Wrapper_call ct now w args kwargs s =
     (Inr (Some v), w\<lparr>timed_lru_cache := c1, hits := hits w + 1\<rparr>, s)"
  by (simp add: Wrapper_call_def Let_def assms)

lemma get_empty: "TimedLRUCache_get ct (TimedLRUCache_init ms t) key = Inr (None, TimedLRUCache_init ms t)"
  by (simp add: get_absent TimedLRUCache_init_def od_contains_def)

lemma add_empty:
  "TimedLRUCache_add now (TimedLRUCache_init ms t) key v ts
     = Inr \<lparr>max_size = ms, ttl = t, cache = [(key, Item v (stamp now ts))]\<rparr>"
  by (simp add: add_closed TimedLRUCache_init_def cap_reached_def split: option.splits)

lemma step_returns: "\<exists>y c'. step x c = Inr (y, c')"
proof (cases x)
  case (Get ct key)
  then show ?thesis using get_returns [of ct c key] by auto
next
  case (Add now key v ts)
  then show ?thesis by (simp add: add_closed)
qed simp_all

lemma add_len_bound:
  assumes "0 < C" and "max_size c = Some C" and "TimedLRUCache_len c \<le> C"
    and "TimedLRUCache_add now c key v ts = Inr c'"
  shows "max_size c' = Some C \<and> TimedLRUCache_len c' \<le> C"
proof -
  define d where "d = (if cap_reached (max_size c) (cache c) then tl (cache c) else cache c)"
  have "int (length d) < C"
    using assms(1-3) by (auto simp: d_def cap_reached_def TimedLRUCache_len_def)
  then have "int (length (filter (\<lambda>p. fst p \<noteq> key) d)) < C"
    using length_filter_le [of "\<lambda>p. fst p \<noteq> key" d] by linarith
  moreover have "cache c' = filter (\<lambda>p. fst p \<noteq> key) d @ [(key, Item v (stamp now ts))]"
    and "max_size c' = max_size c"
    using assms(4) unfolding add_closed d_def by auto
  ultimately show ?thesis
    using assms(2) by (simp add: TimedLRUCache_len_def)
qed

lemma get_len_bound:
  assumes "TimedLRUCache_get ct c key = Inr (r, c')"
  shows "max_size c' = max_size c \<and> TimedLRUCache_len c' \<le> TimedLRUCache_len c"
proof (cases rule: get_cases [of key c ct])
  case absent
  with assms show ?thesis by simp
next
  case (stale item)
  with assms show ?thesis by (auto simp: TimedLRUCache_len_def)
next
  case (fresh item)
  then have "od_contains key (cache c)" by (simp add: od_contains_def)
  then have "length (filter (\<lambda>p. fst p \<noteq> key) (cache c)) < length (cache c)"
    by (auto simp: od_contains_iff intro!: length_filter_less)
  with fresh assms show ?thesis by (auto simp: TimedLRUCache_len_def)
qed

lemma step_len_bound:
  assumes "0 < C" and "max_size c = Some C" and "TimedLRUCache_len c \<le> C"
    and "step x c = Inr (y, c')"
  shows "max_size c' = Some C \<and> TimedLRUCache_len c' \<le> C"
proof (cases x)
  case (Get ct key)
  with assms(4) obtain r where "TimedLRUCache_get ct c key = Inr (r, c')"
    by (auto split: sum.splits)
  from get_len_bound [OF this] assms(2,3) show ?thesis by simp
next
  case (Add now key v ts)
  with assms(4) have "TimedLRUCache_add now c key v ts = Inr c'"
    by (auto split: sum.splits)
  from add_len_bound [OF assms(1-3) this] show ?thesis .
next
  case Len
  with assms show ?thesis by auto
next
  case Clear
  with assms show ?thesis by (auto simp: TimedLRUCache_clear_def TimedLRUCache_len_def)
qed

lemma exec_len_bound:
  "0 < C \<Longrightarrow> max_size c = Some C \<Longrightarrow> TimedLRUCache_len c \<le> C \<Longrightarrow>
   \<exists>outs c'. exec ops c = Inr (outs, c') \<and> max_size c' = Some C \<and> TimedLRUCache_len c' \<le> C"
proof (induction ops arbitrary: c)
  case Nil
  then show ?case by simp
next
  case (Cons x ops)
  obtain y c1 where s: "step x c = Inr (y, c1)"
    using step_returns [of x c] by blast
  from step_len_bound [OF Cons.prems s]
  have "max_size c1 = Some C" "TimedLRUCache_len c1 \<le> C" by simp_all
  from Cons.IH [OF Cons.prems(1) this]
  obtain outs c' where "exec ops c1 = Inr (outs, c')" "max_size c' = Some C"
    "TimedLRUCache_len c' \<le> C" by blast
  with s show ?case by simp
qed

lemma exec_append:
  "exec (xs @ ys) c =
     (case exec xs c of
        Inl e \<Rightarrow> Inl e
      | Inr (o1, c1) \<Rightarrow>
          (case exec ys c1 of Inl e \<Rightarrow> Inl e | Inr (o2, c2) \<Rightarrow> Inr (o1 @ o2, c2)))"
  by (induction xs arbitrary: c) (auto split: sum.splits)

lemma keys_entries: "fst ` entry now v ts ` set ks = set ks"
  by (force simp: entry_def)

lemma add_fresh_key:
  assumes "\<not> cap_reached (max_size c) (cache c)" and "\<not> od_contains key (cache c)"
  shows "TimedLRUCache_add now c key v ts
           = Inr (c\<lparr>cache := cache c @ [(key, Item v (stamp now ts))]\<rparr>)"
  using assms by (simp add: add_closed filter_absent)

lemma exec_fill:
  assumes "max_size c = Some N" and "distinct ks" and "set ks \<inter> fst ` set (cache c) = {}"
    and "int (length (cache c) + length ks) \<le> N"
  shows "exec (add_ops now v ts ks) c
           = Inr (replicate (length ks) Unit, c\<lparr>cache := cache c @ map (entry now v ts) ks\<rparr>)"
  using assms
proof (induction ks arbitrary: c)
  case Nil
  then show ?case by (simp add: add_ops_def)
next
  case (Cons k ks)
  let ?c1 = "c\<lparr>cache := cache c @ [(k, Item (v k) (stamp (now k) (ts k)))]\<rparr>"
  have nocap: "\<not> cap_reached (max_size c) (cache c)"
    using Cons.prems(1,4) by (simp add: cap_reached_def)
  have fresh: "\<not> od_contains k (cache c)"
    using Cons.prems(3) by (auto simp: od_contains_iff)
  have a: "TimedLRUCache_add (now k) c k (v k) (ts k) = Inr ?c1"
    by (rule add_fresh_key [OF nocap fresh])
  have "exec (add_ops now v ts ks) ?c1
      = Inr (replicate (length ks) Unit, ?c1\<lparr>cache := cache ?c1 @ map (entry now v ts) ks\<rparr>)"
    using Cons.prems by (intro Cons.IH) auto
  with a show ?case by (simp add: add_ops_def entry_def)
qed

lemma add_full_fresh_key:
  assumes "max_size c = Some (int (length (cache c)))" and "cache c \<noteq> []"
    and "\<not> od_contains key (cache c)"
  shows "TimedLRUCache_add now c key v ts
           = Inr (c\<lparr>cache := tl (cache c) @ [(key, Item v (stamp now ts))]\<rparr>)"
proof -
  have cap: "cap_reached (max_size c) (cache c)"
    using assms(1,2) by (simp add: cap_reached_def)
  have "\<not> od_contains key (tl (cache c))"
    using assms(2,3) by (cases "cache c") (auto simp: od_contains_iff)
  then show ?thesis by (simp add: add_closed cap filter_absent)
qed

lemma expired_zero: "expired (Some 0) ct ta = expired None ct ta"
  by (simp add: expired_def)

lemma cap_reached_zero: "cap_reached (Some 0) d = cap_reached None d"
  by (simp add: cap_reached_def)

lemma get_same_tests:
  assumes "cache c1 = cache c2"
    and "\<And>ta. expired (ttl c1) ct ta = expired (ttl c2) ct ta"
    and "TimedLRUCache_get ct c1 key = Inr (r, c1')"
  shows "\<exists>c2'. TimedLRUCache_get ct c2 key = Inr (r, c2') \<and> cache c1' = cache c2'
           \<and> max_size c1' = max_size c1 \<and> ttl c1' = ttl c1
           \<and> max_size c2' = max_size c2 \<and> ttl c2' = ttl c2"
proof (cases rule: get_cases [of key c1 ct])
  case absent
  then have "\<not> od_contains key (cache c2)" by (simp add: assms(1))
  from get_absent [OF this, of ct] absent assms(1,3) show ?thesis by simp
next
  case (stale item)
  then have "map_of (cache c2) key = Some item" "expired (ttl c2) ct (time_added item)"
    by (simp_all add: assms(1) assms(2) [symmetric])
  from get_expired [OF this] stale assms(1,3) show ?thesis by simp
next
  case (fresh item)
  then have "map_of (cache c2) key = Some item" "\<not> expired (ttl c2) ct (time_added item)"
    by (simp_all add: assms(1) assms(2) [symmetric])
  from get_fresh [OF this] fresh assms(1,3) show ?thesis by simp
qed

lemma add_same_tests:
  assumes "cache c1 = cache c2"
    and "cap_reached (max_size c1) (cache c1) = cap_reached (max_size c2) (cache c2)"
    and "TimedLRUCache_add now c1 key v ts = Inr c1'"
  shows "\<exists>c2'. TimedLRUCache_add now c2 key v ts = Inr c2' \<and> cache c1' = cache c2'
           \<and> max_size c1' = max_size c1 \<and> ttl c1' = ttl c1
           \<and> max_size c2' = max_size c2 \<and> ttl c2' = ttl c2"
  using assms unfolding add_closed by auto

lemma step_same_tests:
  assumes "cache c1 = cache c2"
    and "max_size c1 = max_size c2 \<or> (max_size c1 = Some 0 \<and> max_size c2 = None)"
    and "ttl c1 = ttl c2 \<or> (ttl c1 = Some 0 \<and> ttl c2 = None)"
    and "step x c1 = Inr (y, c1')"
  shows "\<exists>c2'. step x c2 = Inr (y, c2') \<and> cache c1' = cache c2'
           \<and> max_size c1' = max_size c1 \<and> ttl c1' = ttl c1
           \<and> max_size c2' = max_size c2 \<and> ttl c2' = ttl c2"
proof (cases x)
  case (Get ct key)
  with assms(4) obtain r where g: "TimedLRUCache_get ct c1 key = Inr (r, c1')" and y: "y = Got r"
    by (auto split: sum.splits)
  have "expired (ttl c1) ct ta = expired (ttl c2) ct ta" for ta
    using assms(3) by (auto simp: expired_zero)
  from get_same_tests [OF assms(1) this g] Get y show ?thesis by auto
next
  case (Add now key v ts)
  with assms(4) have a: "TimedLRUCache_add now c1 key v ts = Inr c1'" and y: "y = Unit"
    by (auto split: sum.splits)
  have "cap_reached (max_size c1) (cache c1) = cap_reached (max_size c2) (cache c2)"
    using assms(1,2) by (auto simp: cap_reached_zero)
  from add_same_tests [OF assms(1) this a] Add y show ?thesis by auto
next
  case Len
  with assms show ?thesis by (auto simp: TimedLRUCache_len_def)
next
  case Clear
  with assms show ?thesis by (auto simp: TimedLRUCache_clear_def)
qed

lemma exec_same_tests:
  assumes "cache c1 = cache c2"
    and "max_size c1 = max_size c2 \<or> (max_size c1 = Some 0 \<and> max_size c2 = None)"
    and "ttl c1 = ttl c2 \<or> (ttl c1 = Some 0 \<and> ttl c2 = None)"
  shows "\<exists>outs c1' c2'. exec ops c1 = Inr (outs, c1') \<and> exec ops c2 = Inr (outs, c2')
           \<and> cache c1' = cache c2'"
  using assms
proof (induction ops arbitrary: c1 c2)
  case Nil
  then show ?case by simp
next
  case (Cons x ops)
  obtain y d1 where s1: "step x c1 = Inr (y, d1)"
    using step_returns [of x c1] by blast
  from step_same_tests [OF Cons.prems s1]
  obtain d2 where s2: "step x c2 = Inr (y, d2)" and c: "cache d1 = cache d2"
    and cfg: "max_size d1 = max_size c1" "ttl d1 = ttl c1" "max_size d2 = max_size c2"
      "ttl d2 = ttl c2"
    by blast
  have "\<exists>outs c1' c2'. exec ops d1 = Inr (outs, c1') \<and> exec ops d2 = Inr (outs, c2')
           \<and> cache c1' = cache c2'"
    using Cons.prems(2,3) by (intro Cons.IH [OF c]) (simp_all add: cfg)
  then obtain outs c1' c2' where "exec ops d1 = Inr (outs, c1')" "exec ops d2 = Inr (outs, c2')"
    "cache c1' = cache c2'" by blast
  with s1 s2 show ?case by simp
qed

text \<open>
  The keys of the dictionary stay distinct, so the list is a dictionary at every
  moment and its length is what \<^verbatim>\<open>len\<close> returns.
\<close>

lemma get_invar:
  assumes "od_invar (cache c)" and "TimedLRUCache_get ct c key = Inr (r, c')"
  shows "od_invar (cache c')"
proof (cases rule: get_cases [of key c ct])
  case absent
  with assms show ?thesis by simp
next
  case (stale item)
  with assms show ?thesis by (auto intro: od_invar_filter)
next
  case (fresh item)
  with assms show ?thesis by (auto intro: od_invar_move)
qed

lemma add_invar:
  assumes "od_invar (cache c)" and "TimedLRUCache_add now c key v ts = Inr c'"
  shows "od_invar (cache c')"
  using assms unfolding add_closed by (auto intro!: od_invar_move od_invar_tl)

lemma step_invar:
  assumes "od_invar (cache c)" and "step x c = Inr (y, c')"
  shows "od_invar (cache c')"
proof (cases x)
  case (Get ct key)
  with assms show ?thesis by (auto split: sum.splits dest: get_invar)
next
  case (Add now key v ts)
  with assms show ?thesis by (auto split: sum.splits dest: add_invar)
next
  case Len
  with assms show ?thesis by auto
next
  case Clear
  with assms show ?thesis by (auto simp: TimedLRUCache_clear_def od_invar_def)
qed

lemma exec_invar:
  "od_invar (cache c) \<Longrightarrow> exec ops c = Inr (outs, c') \<Longrightarrow> od_invar (cache c')"
proof (induction ops arbitrary: c outs)
  case Nil
  then show ?case by simp
next
  case (Cons x ops)
  from Cons.prems(2) obtain y c1 ys where s: "step x c = Inr (y, c1)"
    and e: "exec ops c1 = Inr (ys, c')"
    by (auto split: sum.splits)
  from step_invar [OF Cons.prems(1) s] have "od_invar (cache c1)" .
  from Cons.IH [OF this e] show ?case .
qed

lemma exec_returns: "\<exists>outs c'. exec ops c = Inr (outs, c')"
proof (induction ops arbitrary: c)
  case Nil
  show ?case by simp
next
  case (Cons x ops)
  obtain y c1 where "step x c = Inr (y, c1)" using step_returns [of x c] by blast
  moreover obtain outs c' where "exec ops c1 = Inr (outs, c')" using Cons.IH [of c1] by blast
  ultimately show ?case by simp
qed

section \<open>The claims\<close>

subsection \<open>C1\<close>

text \<open>
  C1, as the spec states it, fails for a wrapped function that returns \<^verbatim>\<open>None\<close>: the
  wrapper reads the cached \<^verbatim>\<open>None\<close> as a miss. Two calls of a fresh wrapper with the same
  arguments run such a function twice and end with no hit and two misses.
\<close>

theorem memoization_None_counterexample:
  "fst none_run1 = Inr None \<and> fst none_run2 = Inr None
   \<and> Wrapper_cache_info (fst (snd none_run2))
        = \<lparr>info_hits = 0, info_misses = 2, current_size = 1, info_max_size = None\<rparr>
   \<and> fst (snd (snd none_run2)) = 2"
  by (simp add: none_run2_def none_run1_def Wrapper_call_def Wrapper_init_def
      TimedLRUCache_init_def Let_def counting_def returning_def call_args_def Wrapper_cache_info_def
      TimedLRUCache_len_def TimedLRUCache_get_def od_contains_def od_getitem_def
      od_move_to_end_def expired_def add_closed cap_reached_def stamp_def)

text \<open>
  C1, amended. Take a freshly constructed wrapper around a function that, for the given
  arguments, returns a result \<open>v\<close> other than \<^verbatim>\<open>None\<close>, with or without a timestamp.
  The first call runs the function and returns \<open>v\<close>. If the entry has not expired when
  the second call with the same arguments looks it up, the second call returns \<open>v\<close>
  without running the function: the counter of invocations stays at 1 and the state
  of the function is the one its single run left. Afterwards \<^verbatim>\<open>cache_info()\<close> shows one
  hit, one miss and one entry.
\<close>

theorem memoization_once:
  assumes "fn args kwargs sa = (Inr (Some v, ts), sb)"
    and "\<not> expired t ctb (stamp nowa ts)"
  shows "\<exists>w1 w2.
      Wrapper_call cta nowa (Wrapper_init (counting fn) ms t) args kwargs (0, sa)
        = (Inr (Some v), w1, (1, sb))
    \<and> Wrapper_call ctb nowb w1 args kwargs (1, sb) = (Inr (Some v), w2, (1, sb))
    \<and> Wrapper_cache_info w2
        = \<lparr>info_hits = 1, info_misses = 1, current_size = 1, info_max_size = ms\<rparr>"
proof -
  let ?k = "call_args args kwargs"
  let ?w0 = "Wrapper_init (counting fn) ms t"
  let ?c1 = "\<lparr>max_size = ms, ttl = t, cache = [(?k, Item (Some v) (stamp nowa ts))]\<rparr>"
  let ?w1 = "?w0\<lparr>timed_lru_cache := ?c1, misses := 1\<rparr>"
  have g0: "TimedLRUCache_get cta (timed_lru_cache ?w0) ?k = Inr (None, TimedLRUCache_init ms t)"
    by (simp add: Wrapper_init_def get_empty)
  have first: "Wrapper_call cta nowa ?w0 args kwargs (0, sa) = (Inr (Some v), ?w1, (1, sb))"
    unfolding call_miss [OF g0]
    by (simp add: Wrapper_init_def counting_def assms(1) add_empty)
  have g1: "TimedLRUCache_get ctb (timed_lru_cache ?w1) ?k = Inr (Some v, ?c1)"
    using get_fresh [of ?c1 ?k "Item (Some v) (stamp nowa ts)" ctb] assms(2)
    by simp
  have second: "Wrapper_call ctb nowb ?w1 args kwargs (1, sb)
      = (Inr (Some v), ?w1\<lparr>timed_lru_cache := ?c1, hits := hits ?w1 + 1\<rparr>, (1, sb))"
    by (rule call_hit [OF g1])
  have info: "Wrapper_cache_info (?w1\<lparr>timed_lru_cache := ?c1, hits := hits ?w1 + 1\<rparr>)
      = \<lparr>info_hits = 1, info_misses = 1, current_size = 1, info_max_size = ms\<rparr>"
    by (simp add: Wrapper_cache_info_def Wrapper_init_def TimedLRUCache_len_def)
  from first second info show ?thesis by blast
qed

theorem memoization_once_witness:
  "\<exists>w1 w2.
      Wrapper_call 1 1 (Wrapper_init (counting (returning (Some (7::nat)) None)) (Some 2) (Some 5))
          [PInt 3] [(''x'', PStr ''a'')] (0, ())
        = (Inr (Some 7), w1, (1, ()))
    \<and> Wrapper_call 4 4 w1 [PInt 3] [(''x'', PStr ''a'')] (1, ()) = (Inr (Some 7), w2, (1, ()))
    \<and> Wrapper_cache_info w2
        = \<lparr>info_hits = 1, info_misses = 1, current_size = 1, info_max_size = Some 2\<rparr>"
proof -
  have a: "returning (Some (7::nat)) None [PInt 3] [(''x'', PStr ''a'')] ()
             = (Inr (Some 7, None), ())"
    by (simp add: returning_def)
  have b: "\<not> expired (Some 5) 4 (stamp 1 None)"
    by (simp add: expired_def stamp_def fsub_eval)
  show ?thesis
    using memoization_once [where fn = "returning (Some (7::nat)) None" and args = "[PInt 3]"
        and kwargs = "[(''x'', PStr ''a'')]" and sa = "()" and sb = "()" and v = 7
        and ts = None and t = "Some 5" and ctb = 4 and nowa = 1 and cta = 1 and nowb = 4
        and ms = "Some 2", OF a b]
    by simp
qed

subsection \<open>C2\<close>

text \<open>
  C2, as the spec states it, fails in its first half: the age that \<^verbatim>\<open>get\<close> compares with
  \<^verbatim>\<open>ttl\<close> is the binary64 difference, and rounding can lift it to \<^verbatim>\<open>ttl\<close> while the exact
  age is still below. With \<^verbatim>\<open>ttl = 0.9\<close>, an entry added at \<^verbatim>\<open>0.1\<close> and read at \<^verbatim>\<open>1.0\<close> (the
  three binary64 numbers these literals denote), \<open>t - t0 < T\<close> holds and yet \<^verbatim>\<open>get\<close>
  answers \<^verbatim>\<open>None\<close> and removes the entry. So it is with \<^verbatim>\<open>ttl = 2 ** 53\<close>, an entry added
  at \<^verbatim>\<open>0.25\<close> and read at \<^verbatim>\<open>2 ** 53\<close>.
\<close>

theorem ttl_boundary_rounding_counterexample:
  "(1 :: real) - 3602879701896397 / 2 ^ 55 < 8106479329266893 / 2 ^ 53
   \<and> exec [Add (3602879701896397 / 2 ^ 55) (1 :: nat) (Some (7 :: nat)) None, Get 1 1]
         (TimedLRUCache_init None (Some (8106479329266893 / 2 ^ 53)))
       = Inr ([Unit, Got None],
              \<lparr>max_size = None, ttl = Some (8106479329266893 / 2 ^ 53), cache = []\<rparr>)
   \<and> (2 :: real) ^ 53 - 1 / 4 < 2 ^ 53
   \<and> exec [Add (1 / 4) (1 :: nat) (Some (7 :: nat)) None, Get (2 ^ 53) 1]
         (TimedLRUCache_init None (Some (2 ^ 53)))
       = Inr ([Unit, Got None], \<lparr>max_size = None, ttl = Some (2 ^ 53), cache = []\<rparr>)"
  by (simp add: TimedLRUCache_init_def add_closed cap_reached_def stamp_def
      TimedLRUCache_get_def od_contains_def od_getitem_def od_pop_def expired_def fsub_eval)

text \<open>
  C2, amended. Let the engine have \<^verbatim>\<open>ttl = T\<close> with \<open>T\<close> positive, and let \<^verbatim>\<open>add\<close> have stored
  \<open>v\<close> under \<open>k\<close> with timestamp \<open>t0 = stamp now ts\<close>. A \<^verbatim>\<open>get(k)\<close> that reads the clock at \<open>t\<close>
  compares the age as the code computes it, the binary64 difference \<open>fsub t t0\<close>, with
  \<open>T\<close>: when that age is below \<open>T\<close> it returns \<open>v\<close> and keeps the entry; when it is \<open>T\<close> or
  more it returns \<^verbatim>\<open>None\<close>, the entry is gone and \<^verbatim>\<open>len\<close> is one less. For a \<open>T\<close> that is a
  binary64 number, the computed age is \<open>T\<close> or more whenever \<open>t - t0 \<ge> T\<close>: the second half
  of the claim holds as stated, and the entry has expired at exactly \<open>T\<close> elapsed.
\<close>

theorem ttl_boundary:
  assumes "ttl c = Some T" and "0 < T" and "TimedLRUCache_add now c k v ts = Inr c1"
  shows "(fsub t (stamp now ts) < T \<longrightarrow>
            (\<exists>c2. TimedLRUCache_get t c1 k = Inr (v, c2) \<and> od_contains k (cache c2)
               \<and> TimedLRUCache_len c2 = TimedLRUCache_len c1))
       \<and> (T \<le> fsub t (stamp now ts) \<longrightarrow>
            (\<exists>c2. TimedLRUCache_get t c1 k = Inr (None, c2) \<and> \<not> od_contains k (cache c2)
               \<and> cache c2 = filter (\<lambda>p. fst p \<noteq> k) (cache c1)
               \<and> TimedLRUCache_len c2 = TimedLRUCache_len c1 - 1))
       \<and> (round64 T = T \<and> T \<le> t - stamp now ts \<longrightarrow>
            (\<exists>c2. TimedLRUCache_get t c1 k = Inr (None, c2) \<and> \<not> od_contains k (cache c2)
               \<and> cache c2 = filter (\<lambda>p. fst p \<noteq> k) (cache c1)
               \<and> TimedLRUCache_len c2 = TimedLRUCache_len c1 - 1))"
proof -
  let ?it = "Item v (stamp now ts)"
  have m: "map_of (cache c1) k = Some ?it" and tt: "ttl c1 = Some T"
    and sp: "filter (\<lambda>p. fst p \<noteq> k) (cache c1) @ [(k, ?it)] = cache c1"
    using add_entry [OF assms(3)] assms(1) by simp_all
  have len: "int (length (filter (\<lambda>p. fst p \<noteq> k) (cache c1))) = int (length (cache c1)) - 1"
    using arg_cong [OF sp, of length] by simp
  have fresh: "\<exists>c2. TimedLRUCache_get t c1 k = Inr (v, c2) \<and> od_contains k (cache c2)
               \<and> TimedLRUCache_len c2 = TimedLRUCache_len c1" if "fsub t (stamp now ts) < T"
  proof -
    from that have "\<not> expired (ttl c1) t (time_added ?it)" by (simp add: expired_def tt)
    from get_fresh [OF m this] show ?thesis
      by (simp add: sp TimedLRUCache_len_def od_contains_def m)
  qed
  have stale: "\<exists>c2. TimedLRUCache_get t c1 k = Inr (None, c2) \<and> \<not> od_contains k (cache c2)
               \<and> cache c2 = filter (\<lambda>p. fst p \<noteq> k) (cache c1)
               \<and> TimedLRUCache_len c2 = TimedLRUCache_len c1 - 1" if "T \<le> fsub t (stamp now ts)"
  proof -
    from that assms(2) have "expired (ttl c1) t (time_added ?it)" by (simp add: expired_def tt)
    from get_expired [OF m this] show ?thesis
      by (simp add: TimedLRUCache_len_def not_contains_filter len)
  qed
  have exact: "T \<le> fsub t (stamp now ts)" if "round64 T = T \<and> T \<le> t - stamp now ts"
    using that assms(2) by (simp add: fsub_ge_double)
  from fresh stale exact show ?thesis by blast
qed

theorem ttl_boundary_witness:
  "(\<exists>c2. TimedLRUCache_get 4 \<lparr>max_size = None, ttl = Some 5, cache = [(1::nat, Item (Some (1::nat)) 0)]\<rparr> 1
          = Inr (Some 1, c2))
   \<and> (\<exists>c2. TimedLRUCache_get 5 \<lparr>max_size = None, ttl = Some 5, cache = [(1::nat, Item (Some (1::nat)) 0)]\<rparr> 1
          = Inr (None, c2) \<and> TimedLRUCache_len c2 = 0)"
proof -
  let ?c = "TimedLRUCache_init None (Some 5) :: (nat, nat) TimedLRUCache"
  let ?c1 = "\<lparr>max_size = None, ttl = Some 5, cache = [(1::nat, Item (Some (1::nat)) 0)]\<rparr>"
  have a: "ttl ?c = Some 5" by (simp add: TimedLRUCache_init_def)
  have b: "(0::real) < 5" by simp
  have c: "TimedLRUCache_add 0 ?c 1 (Some 1) None = Inr ?c1"
    by (simp add: add_closed TimedLRUCache_init_def cap_reached_def stamp_def)
  have d: "fsub 4 (stamp 0 None) < 5" by (simp add: stamp_def fsub_eval)
  have e: "round64 5 = 5 \<and> (5::real) \<le> 5 - stamp 0 None" by (simp add: stamp_def fsub_eval)
  note fresh = ttl_boundary [OF a b c, of 4, THEN conjunct1, THEN mp, OF d]
  note stale = ttl_boundary [OF a b c, of 5, THEN conjunct2, THEN conjunct2, THEN mp, OF e]
  from fresh have f: "\<exists>c2. TimedLRUCache_get 4 ?c1 1 = Inr (Some 1, c2)" by auto
  from stale have g: "\<exists>c2. TimedLRUCache_get 5 ?c1 1 = Inr (None, c2) \<and> TimedLRUCache_len c2 = 0"
    by (auto simp: TimedLRUCache_len_def)
  from f g show ?thesis by (intro conjI)
qed

subsection \<open>C3\<close>

text \<open>
  C3. Let \<^verbatim>\<open>max_size\<close> be a positive \<open>n\<close> and let the dictionary hold exactly \<open>n\<close> items.
  Then \<^verbatim>\<open>add(key, v)\<close> drops the first item whatever \<open>key\<close> is: the new dictionary is
  the old one without its head and without any item of \<open>key\<close>, followed by the new
  item of \<open>key\<close>. With distinct keys, a head other than \<open>key\<close> is no longer present
  afterwards; and when \<open>key\<close> was present further back (an update), the head is
  evicted all the same and \<^verbatim>\<open>len\<close> goes down to \<open>n - 1\<close>.
\<close>

theorem add_at_capacity_evicts_head:
  assumes "max_size c = Some n" and "0 < n" and "TimedLRUCache_len c = n"
  shows "\<exists>c'. TimedLRUCache_add now c key v ts = Inr c'
           \<and> cache c' = filter (\<lambda>p. fst p \<noteq> key) (tl (cache c)) @ [(key, Item v (stamp now ts))]
           \<and> (od_invar (cache c) \<and> fst (hd (cache c)) \<noteq> key \<longrightarrow>
                \<not> od_contains (fst (hd (cache c))) (cache c'))
           \<and> (od_invar (cache c) \<and> od_contains key (tl (cache c)) \<longrightarrow>
                TimedLRUCache_len c' = n - 1)"
proof -
  have cap: "cap_reached (max_size c) (cache c)"
    using assms by (simp add: cap_reached_def TimedLRUCache_len_def)
  have ne: "cache c \<noteq> []"
    using cap by (rule cap_reached_nonempty)
  let ?d = "filter (\<lambda>p. fst p \<noteq> key) (tl (cache c)) @ [(key, Item v (stamp now ts))]"
  have eq: "TimedLRUCache_add now c key v ts = Inr (c\<lparr>cache := ?d\<rparr>)"
    by (simp add: add_closed cap)
  have gone: "\<not> od_contains (fst (hd (cache c))) ?d"
    if "od_invar (cache c)" "fst (hd (cache c)) \<noteq> key"
    using od_contains_hd_tl [OF that(1) ne] that(2)
    by (simp add: od_contains_moved_other)
  have shrink: "int (length ?d) = n - 1"
    if "od_invar (cache c)" "od_contains key (tl (cache c))"
  proof -
    have "Suc (length (filter (\<lambda>p. fst p \<noteq> key) (tl (cache c)))) = length (tl (cache c))"
      using that by (intro length_filter_neq od_invar_tl)
    moreover have "int (length (tl (cache c))) = n - 1"
      using assms(3) ne by (cases "cache c") (simp_all add: TimedLRUCache_len_def)
    ultimately show ?thesis by simp
  qed
  show ?thesis
    using eq gone shrink by (simp add: TimedLRUCache_len_def)
qed

theorem add_at_capacity_evicts_head_witness:
  "TimedLRUCache_add 7 \<lparr>max_size = Some 2, ttl = None,
       cache = [(1::nat, Item (Some (10::nat)) 0), (2, Item (Some 20) 1)]\<rparr> 2 (Some 21) None
   = Inr \<lparr>max_size = Some 2, ttl = None, cache = [(2, Item (Some 21) 7)]\<rparr>"
proof -
  let ?c = "\<lparr>max_size = Some 2, ttl = None,
       cache = [(1::nat, Item (Some (10::nat)) 0), (2, Item (Some 20) 1)]\<rparr>"
  have a: "max_size ?c = Some 2" by simp
  have b: "(0::int) < 2" by simp
  have c: "TimedLRUCache_len ?c = 2" by (simp add: TimedLRUCache_len_def)
  obtain c' where r: "TimedLRUCache_add 7 ?c 2 (Some 21) None = Inr c'"
    and d: "cache c' = [(2, Item (Some 21) 7)]"
    using add_at_capacity_evicts_head [OF a b c, of 7 2 "Some 21" None]
    by (auto simp: stamp_def)
  from r have "max_size c' = Some 2" "ttl c' = None"
    using add_entry(2,3) [OF r] by simp_all
  with d have "c' = \<lparr>max_size = Some 2, ttl = None, cache = [(2, Item (Some 21) 7)]\<rparr>"
    by simp
  with r show ?thesis by simp
qed

subsection \<open>C4\<close>

text \<open>
  C4. From the empty engine with a positive \<^verbatim>\<open>max_size = C\<close>, every finite sequence of
  \<^verbatim>\<open>get\<close>, \<^verbatim>\<open>add\<close>, \<^verbatim>\<open>len\<close> and \<^verbatim>\<open>clear\<close> runs without an exception, and after each of its
  operations (that is, after every prefix \<open>take n ops\<close>) \<^verbatim>\<open>len\<close> is at most \<open>C\<close>.
\<close>

theorem capacity_bound:
  "0 < C \<Longrightarrow>
   \<exists>outs c'. exec (take n (ops :: ('k, 'v) op list)) (TimedLRUCache_init (Some C) t) = Inr (outs, c')
     \<and> TimedLRUCache_len c' \<le> C"
proof -
  assume pos: "0 < C"
  let ?c = "TimedLRUCache_init (Some C) t :: ('k, 'v) TimedLRUCache"
  have ms: "max_size ?c = Some C"
    by (simp add: TimedLRUCache_init_def)
  have len: "TimedLRUCache_len ?c \<le> C"
    using pos by (simp add: TimedLRUCache_init_def TimedLRUCache_len_def)
  from exec_len_bound [OF pos ms len, of "take n ops"]
  obtain outs c' where "exec (take n ops) ?c = Inr (outs, c')" "TimedLRUCache_len c' \<le> C"
    by blast
  then show ?thesis by blast
qed

theorem capacity_bound_witness:
  "\<exists>outs c'. exec (take 3 [Add 0 (1::nat) (Some (1::nat)) None, Add 1 2 (Some 2) None,
                            Add 2 3 (Some 3) None, Get 3 1, Len])
                (TimedLRUCache_init (Some 2) None) = Inr (outs, c')
     \<and> TimedLRUCache_len c' \<le> 2"
proof -
  have "(0::int) < 2" by simp
  then show ?thesis by (rule capacity_bound)
qed

subsection \<open>C5\<close>

text \<open>
  C5, as the spec states it, fails: a call whose key holds a stale entry is a miss,
  and the lookup has removed that entry before the wrapped function raises, so the
  contents of the engine are not what they were.
\<close>

theorem failed_call_contents_counterexample:
  "fst (Wrapper_call 10 10 stale_raising_wrapper [] [] ()) = Inl (Raised ''boom'')
   \<and> TimedLRUCache_len (timed_lru_cache stale_raising_wrapper) = 1
   \<and> TimedLRUCache_len (timed_lru_cache (fst (snd (Wrapper_call 10 10 stale_raising_wrapper [] [] ())))) = 0
   \<and> timed_lru_cache (fst (snd (Wrapper_call 10 10 stale_raising_wrapper [] [] ())))
       \<noteq> timed_lru_cache stale_raising_wrapper"
  by (simp add: stale_raising_wrapper_def Wrapper_call_def TimedLRUCache_get_def Let_def
      call_args_def od_contains_def od_getitem_def od_pop_def expired_def fsub_eval raising_def
      TimedLRUCache_len_def)

text \<open>
  C5, amended. If the lookup of a call answers \<^verbatim>\<open>None\<close> and the wrapped function raises
  \<open>e\<close>, the call raises \<open>e\<close>; the wrapper afterwards is the old one with \<^verbatim>\<open>misses\<close> one
  higher and with the engine as the lookup left it, so \<^verbatim>\<open>hits\<close> is unchanged. Nothing
  has been written: every item of the engine was there before, the items of all other
  keys are as they were, and the engine is unchanged when the key was not present.
\<close>

theorem failed_call_writes_nothing:
  assumes "TimedLRUCache_get ct (timed_lru_cache w) (call_args args kwargs) = Inr (None, c1)"
    and "wrapped w args kwargs s = (Inl e, s')"
  shows "Wrapper_call ct now w args kwargs s
           = (Inl e, w\<lparr>timed_lru_cache := c1, misses := misses w + 1\<rparr>, s')
         \<and> set (cache c1) \<subseteq> set (cache (timed_lru_cache w))
         \<and> filter (\<lambda>p. fst p \<noteq> call_args args kwargs) (cache c1)
             = filter (\<lambda>p. fst p \<noteq> call_args args kwargs) (cache (timed_lru_cache w))
         \<and> (\<not> od_contains (call_args args kwargs) (cache (timed_lru_cache w)) \<longrightarrow>
               c1 = timed_lru_cache w)"
proof -
  let ?c = "timed_lru_cache w" and ?k = "call_args args kwargs"
  have call: "Wrapper_call ct now w args kwargs s
           = (Inl e, w\<lparr>timed_lru_cache := c1, misses := misses w + 1\<rparr>, s')"
    by (simp add: call_miss [OF assms(1)] assms(2))
  have frame: "set (cache c1) \<subseteq> set (cache ?c)
      \<and> filter (\<lambda>p. fst p \<noteq> ?k) (cache c1) = filter (\<lambda>p. fst p \<noteq> ?k) (cache ?c)
      \<and> (\<not> od_contains ?k (cache ?c) \<longrightarrow> c1 = ?c)"
  proof (cases rule: get_cases [of ?k ?c ct])
    case absent
    with assms(1) show ?thesis by simp
  next
    case (stale item)
    with assms(1) show ?thesis by (auto simp: od_contains_def)
  next
    case (fresh item)
    with assms(1) show ?thesis by (auto simp: od_contains_def dest: map_of_SomeD)
  qed
  from call frame show ?thesis by blast
qed

theorem failed_call_writes_nothing_witness:
  "Wrapper_call 10 10 stale_raising_wrapper [] [] ()
     = (Inl (Raised ''boom''),
        stale_raising_wrapper\<lparr>timed_lru_cache := \<lparr>max_size = None, ttl = Some 5, cache = []\<rparr>,
                              misses := 1\<rparr>, ())"
proof -
  have a: "TimedLRUCache_get 10 (timed_lru_cache stale_raising_wrapper) (call_args [] [])
             = Inr (None, \<lparr>max_size = None, ttl = Some 5, cache = []\<rparr>)"
    by (simp add: stale_raising_wrapper_def TimedLRUCache_get_def call_args_def od_contains_def
        od_getitem_def od_pop_def expired_def fsub_eval)
  have b: "wrapped stale_raising_wrapper [] [] () = (Inl (Raised ''boom''), ())"
    by (simp add: stale_raising_wrapper_def raising_def)
  show ?thesis
    using failed_call_writes_nothing [OF a b, of 10] by (simp add: stale_raising_wrapper_def)
qed

subsection \<open>C6\<close>

text \<open>
  C6. \<^verbatim>\<open>add(k, None)\<close> stores an entry whose value is \<^verbatim>\<open>None\<close>. While such an entry has
  not expired, \<^verbatim>\<open>get(k)\<close> answers \<^verbatim>\<open>None\<close>, exactly what it answers for a key \<open>k'\<close> that
  is not in the dictionary, although the entry of \<open>k\<close> is still there and has been
  moved to the most recently used end. So a call of the wrapper whose key holds a
  cached \<^verbatim>\<open>None\<close> counts a miss, leaves \<^verbatim>\<open>hits\<close> alone and runs the wrapped function
  again.
\<close>

theorem stored_None_reads_as_absent:
  "(TimedLRUCache_add tadd cprev k None ts = Inr c \<longrightarrow>
      map_of (cache c) k = Some (Item None (stamp tadd ts)))
   \<and> (map_of (cache c) k = Some (Item None ta) \<and> \<not> expired (ttl c) ct ta
        \<and> \<not> od_contains k' (cache c) \<longrightarrow>
      (\<exists>c'. TimedLRUCache_get ct c k = Inr (None, c')
         \<and> cache c' = filter (\<lambda>p. fst p \<noteq> k) (cache c) @ [(k, Item None ta)]
         \<and> od_contains k (cache c') \<and> last (cache c') = (k, Item None ta))
      \<and> TimedLRUCache_get ct c k' = Inr (None, c)
      \<and> fst (projr (TimedLRUCache_get ct c k)) = fst (projr (TimedLRUCache_get ct c k')))
   \<and> (map_of (cache (timed_lru_cache w)) (call_args args kwargs) = Some (Item None ta)
        \<and> \<not> expired (ttl (timed_lru_cache w)) ct ta \<longrightarrow>
      misses (fst (snd (Wrapper_call ct now w args kwargs s))) = misses w + 1
      \<and> hits (fst (snd (Wrapper_call ct now w args kwargs s))) = hits w
      \<and> snd (snd (Wrapper_call ct now w args kwargs s)) = snd (wrapped w args kwargs s))"
proof (intro conjI impI)
  assume "TimedLRUCache_add tadd cprev k None ts = Inr c"
  then show "map_of (cache c) k = Some (Item None (stamp tadd ts))"
    by (rule add_entry(1))
next
  assume a: "map_of (cache c) k = Some (Item None ta) \<and> \<not> expired (ttl c) ct ta
        \<and> \<not> od_contains k' (cache c)"
  then have g: "TimedLRUCache_get ct c k =
      Inr (None, c\<lparr>cache := filter (\<lambda>p. fst p \<noteq> k) (cache c) @ [(k, Item None ta)]\<rparr>)"
    using get_fresh [of c k "Item None ta" ct] by simp
  from a have g': "TimedLRUCache_get ct c k' = Inr (None, c)"
    by (simp add: get_absent)
  show "\<exists>c'. TimedLRUCache_get ct c k = Inr (None, c')
         \<and> cache c' = filter (\<lambda>p. fst p \<noteq> k) (cache c) @ [(k, Item None ta)]
         \<and> od_contains k (cache c') \<and> last (cache c') = (k, Item None ta)"
    using g by (simp add: contains_moved)
  show "TimedLRUCache_get ct c k' = Inr (None, c)" by (rule g')
  show "fst (projr (TimedLRUCache_get ct c k)) = fst (projr (TimedLRUCache_get ct c k'))"
    by (simp add: g g')
next
  assume a: "map_of (cache (timed_lru_cache w)) (call_args args kwargs) = Some (Item None ta)
        \<and> \<not> expired (ttl (timed_lru_cache w)) ct ta"
  let ?c = "timed_lru_cache w" and ?k = "call_args args kwargs"
  from a have g: "TimedLRUCache_get ct ?c ?k =
      Inr (None, ?c\<lparr>cache := filter (\<lambda>p. fst p \<noteq> ?k) (cache ?c) @ [(?k, Item None ta)]\<rparr>)"
    using get_fresh [of ?c ?k "Item None ta" ct] by simp
  note m = call_miss [OF g, of now s]
  show "misses (fst (snd (Wrapper_call ct now w args kwargs s))) = misses w + 1"
    unfolding m add_closed by (simp split: prod.splits sum.splits)
  show "hits (fst (snd (Wrapper_call ct now w args kwargs s))) = hits w"
    unfolding m add_closed by (simp split: prod.splits sum.splits)
  show "snd (snd (Wrapper_call ct now w args kwargs s)) = snd (wrapped w args kwargs s)"
    unfolding m add_closed by (simp split: prod.splits sum.splits)
qed


theorem stored_None_reads_as_absent_witness:
  "(\<exists>c'. TimedLRUCache_get 2 \<lparr>max_size = None, ttl = Some 5,
            cache = [(1::nat, Item (None :: nat option) 0), (2, Item (Some 3) 1)]\<rparr> 1 = Inr (None, c')
        \<and> cache c' = [(2, Item (Some 3) 1), (1, Item None 0)])
   \<and> TimedLRUCache_get 2 \<lparr>max_size = None, ttl = Some 5,
            cache = [(1::nat, Item (None :: nat option) 0), (2, Item (Some 3) 1)]\<rparr> 9
       = Inr (None, \<lparr>max_size = None, ttl = Some 5,
            cache = [(1::nat, Item (None :: nat option) 0), (2, Item (Some 3) 1)]\<rparr>)
   \<and> misses (fst (snd (Wrapper_call 2 2
         \<lparr>wrapped = counting (returning (None :: nat option) None),
          timed_lru_cache = \<lparr>max_size = None, ttl = None, cache = [([PInt 1], Item None 0)]\<rparr>,
          hits = 0, misses = 0, wrapper_max_size = None\<rparr> [PInt 1] [] (0, ())))) = 1
   \<and> snd (snd (Wrapper_call 2 2
         \<lparr>wrapped = counting (returning (None :: nat option) None),
          timed_lru_cache = \<lparr>max_size = None, ttl = None, cache = [([PInt 1], Item None 0)]\<rparr>,
          hits = 0, misses = 0, wrapper_max_size = None\<rparr> [PInt 1] [] (0, ()))) = (1, ())"
proof -
  let ?c = "\<lparr>max_size = None, ttl = Some 5,
            cache = [(1::nat, Item (None :: nat option) 0), (2, Item (Some 3) 1)]\<rparr>"
  let ?w = "\<lparr>wrapped = counting (returning (None :: nat option) None),
          timed_lru_cache = \<lparr>max_size = None, ttl = None, cache = [([PInt 1], Item None 0)]\<rparr>,
          hits = 0, misses = 0, wrapper_max_size = None\<rparr>"
  note inst = stored_None_reads_as_absent [where c = ?c and k = 1 and k' = 9 and ta = 0
      and ct = 2 and now = 2 and s = "(0, ())" and args = "[PInt 1]" and kwargs = "[]"
      and w = ?w and tadd = 0 and ts = None and cprev = "TimedLRUCache_init None (Some 5)"]
  have h1: "map_of (cache ?c) 1 = Some (Item None 0) \<and> \<not> expired (ttl ?c) 2 0
        \<and> \<not> od_contains 9 (cache ?c)"
    by (simp add: expired_def od_contains_def fsub_eval)
  have h2: "map_of (cache (timed_lru_cache ?w)) (call_args [PInt 1] []) = Some (Item None 0)
        \<and> \<not> expired (ttl (timed_lru_cache ?w)) 2 0"
    by (simp add: expired_def call_args_def)
  have w: "snd (wrapped ?w [PInt 1] [] (0, ())) = (1, ())"
    by (simp add: counting_def returning_def)
  note p2 = inst [THEN conjunct2, THEN conjunct1, THEN mp, OF h1]
  note p3 = inst [THEN conjunct2, THEN conjunct2, THEN mp, OF h2]
  from p2 have g1: "\<exists>c'. TimedLRUCache_get 2 ?c 1 = Inr (None, c')
        \<and> cache c' = [(2, Item (Some 3) 1), (1, Item None 0)]"
    by auto
  from p2 have g2: "TimedLRUCache_get 2 ?c 9 = Inr (None, ?c)"
    by simp
  from p3 w have g3: "misses (fst (snd (Wrapper_call 2 2 ?w [PInt 1] [] (0, ())))) = 1"
    and g4: "snd (snd (Wrapper_call 2 2 ?w [PInt 1] [] (0, ()))) = (1, ())"
    by simp_all
  from g1 g2 g3 g4 show ?thesis by (intro conjI)
qed

subsection \<open>C7\<close>

text \<open>
  C7, as the spec states it, fails in its second half: a \<^verbatim>\<open>get\<close> of the first key protects
  it only if another key is older in the recency order when the last \<^verbatim>\<open>add\<close> comes. With
  \<^verbatim>\<open>max_size = 2\<close>, the first key is read right after its insertion, while it is the
  only entry; the two later keys go behind it and the third \<^verbatim>\<open>add\<close> evicts the first key
  all the same. With \<^verbatim>\<open>max_size = 1\<close> the first key is always the only entry, and the
  second \<^verbatim>\<open>add\<close> evicts it whether it has been read or not.
\<close>

theorem lru_order_early_get_counterexample:
  "exec [Add 0 (1::nat) (Some (10::nat)) None, Get 1 1, Add 2 2 (Some 20) None,
         Add 3 3 (Some 30) None]
        (TimedLRUCache_init (Some 2) None)
     = Inr ([Unit, Got (Some 10), Unit, Unit],
            \<lparr>max_size = Some 2, ttl = None,
             cache = [(2, Item (Some 20) 2), (3, Item (Some 30) 3)]\<rparr>)
   \<and> exec [Add 0 (1::nat) (Some (10::nat)) None, Get 1 1, Add 2 2 (Some 20) None]
        (TimedLRUCache_init (Some 1) None)
     = Inr ([Unit, Got (Some 10), Unit],
            \<lparr>max_size = Some 1, ttl = None, cache = [(2, Item (Some 20) 2)]\<rparr>)"
  by (simp add: TimedLRUCache_init_def add_closed cap_reached_def stamp_def
      TimedLRUCache_get_def od_contains_def od_getitem_def od_move_to_end_def expired_def)

text \<open>
  C7, amended. Take an engine without TTL whose \<^verbatim>\<open>max_size\<close> is the number \<open>N\<close> of the
  distinct keys \<open>k1 # as @ bs\<close>, and one more key \<open>k'\<close>.

  \<^item> Adding the \<open>N\<close> keys and then \<open>k'\<close> with no \<^verbatim>\<open>get\<close> in between leaves the keys
    \<open>as @ bs @ [k']\<close>: exactly the first inserted key \<open>k1\<close> is evicted.
  \<^item> Let the first key be read by one \<^verbatim>\<open>get\<close> after the keys \<open>k1 # as\<close> are in and before
    the keys \<open>bs\<close> and \<open>k'\<close> are added. The \<^verbatim>\<open>get\<close> returns the value of \<open>k1\<close>. If it comes
    after the second \<^verbatim>\<open>add\<close> (\<open>as\<close> is not empty, so \<open>N \<ge> 2\<close>), the last \<^verbatim>\<open>add\<close> evicts the
    second inserted key \<open>hd as\<close>, then the least recently used one, and \<open>k1\<close> stays: the keys
    are \<open>tl as @ [k1] @ bs @ [k']\<close>.
  \<^item> If the \<^verbatim>\<open>get\<close> comes before the second \<^verbatim>\<open>add\<close> (\<open>as\<close> is empty), \<open>k1\<close> is still the
    least recently used key at the end and is the one evicted: the keys are \<open>bs @ [k']\<close>.

  So the key evicted is the least recently used one, by \<^verbatim>\<open>add\<close> and \<^verbatim>\<open>get\<close> alike, not the
  first inserted one.
\<close>

theorem lru_order:
  assumes "distinct (k1 # as @ bs)" and "k' \<notin> set (k1 # as @ bs)"
  shows "(\<exists>outs c'. exec (add_ops now v ts (k1 # as @ bs) @ [Add n' k' v' ts'])
                          (TimedLRUCache_init (Some (int (length (k1 # as @ bs)))) None)
                     = Inr (outs, c')
              \<and> map fst (cache c') = as @ bs @ [k'])
       \<and> (\<exists>outs c'. exec (add_ops now v ts (k1 # as) @ [Get ct k1] @ add_ops now v ts bs
                             @ [Add n' k' v' ts'])
                          (TimedLRUCache_init (Some (int (length (k1 # as @ bs)))) None)
                     = Inr (outs, c')
              \<and> outs ! length (k1 # as) = Got (v k1)
              \<and> (as \<noteq> [] \<longrightarrow> map fst (cache c') = tl as @ [k1] @ bs @ [k'])
              \<and> (as = [] \<longrightarrow> map fst (cache c') = bs @ [k']))"
proof (intro conjI)
  let ?n = "int (length (k1 # as @ bs))"
  let ?init = "TimedLRUCache_init (Some ?n) None :: ('a, 'b) TimedLRUCache"
  let ?E = "map (entry now v ts)"
  let ?new = "(k', Item v' (stamp n' ts'))"
  have init: "max_size ?init = Some ?n" "ttl ?init = None" "cache ?init = []"
    by (simp_all add: TimedLRUCache_init_def)

  show "\<exists>outs c'. exec (add_ops now v ts (k1 # as @ bs) @ [Add n' k' v' ts']) ?init
                     = Inr (outs, c')
              \<and> map fst (cache c') = as @ bs @ [k']"
  proof -
    define c1 where "c1 = ?init\<lparr>cache := cache ?init @ ?E (k1 # as @ bs)\<rparr>"
    have fill: "exec (add_ops now v ts (k1 # as @ bs)) ?init
        = Inr (replicate (length (k1 # as @ bs)) Unit, c1)"
      unfolding c1_def using assms(1) by (intro exec_fill [OF init(1)]) (simp_all add: TimedLRUCache_init_def)
    have c1: "cache c1 = ?E (k1 # as @ bs)" "max_size c1 = Some (int (length (cache c1)))"
      by (simp_all add: c1_def TimedLRUCache_init_def)
    have ne: "cache c1 \<noteq> []" by (simp add: c1)
    have fresh: "\<not> od_contains k' (cache c1)"
      using assms(2) by (auto simp: c1 od_contains_iff entry_def)
    have a: "TimedLRUCache_add n' c1 k' v' ts' = Inr (c1\<lparr>cache := tl (cache c1) @ [?new]\<rparr>)"
      by (rule add_full_fresh_key [OF c1(2) ne fresh])
    have "exec (add_ops now v ts (k1 # as @ bs) @ [Add n' k' v' ts']) ?init
        = Inr (replicate (length (k1 # as @ bs)) Unit @ [Unit],
               c1\<lparr>cache := tl (cache c1) @ [?new]\<rparr>)"
      using fill a by (simp add: exec_append)
    moreover have "map fst (tl (cache c1) @ [?new]) = as @ bs @ [k']"
      by (simp add: c1 entry_def comp_def)
    ultimately show ?thesis by simp
  qed

  show "\<exists>outs c'. exec (add_ops now v ts (k1 # as) @ [Get ct k1] @ add_ops now v ts bs
                             @ [Add n' k' v' ts']) ?init
                     = Inr (outs, c')
              \<and> outs ! length (k1 # as) = Got (v k1)
              \<and> (as \<noteq> [] \<longrightarrow> map fst (cache c') = tl as @ [k1] @ bs @ [k'])
              \<and> (as = [] \<longrightarrow> map fst (cache c') = bs @ [k'])"
  proof -
    let ?item = "Item (v k1) (stamp (now k1) (ts k1))"
    define c1 where "c1 = ?init\<lparr>cache := cache ?init @ ?E (k1 # as)\<rparr>"
    define c2 where "c2 = c1\<lparr>cache := ?E as @ [(k1, ?item)]\<rparr>"
    define c3 where "c3 = c2\<lparr>cache := cache c2 @ ?E bs\<rparr>"
    define c4 where "c4 = c3\<lparr>cache := tl (cache c3) @ [?new]\<rparr>"
    have c1: "cache c1 = (k1, ?item) # ?E as" "max_size c1 = Some ?n" "ttl c1 = None"
      by (simp_all add: c1_def TimedLRUCache_init_def entry_def)
    have c2: "cache c2 = ?E as @ [(k1, ?item)]" "max_size c2 = Some ?n"
      by (simp_all add: c2_def c1)
    have c3: "cache c3 = ?E as @ [(k1, ?item)] @ ?E bs"
      "max_size c3 = Some (int (length (cache c3)))"
      by (simp_all add: c3_def c2)
    have s1: "exec (add_ops now v ts (k1 # as)) ?init
        = Inr (replicate (length (k1 # as)) Unit, c1)"
      unfolding c1_def using assms(1) by (intro exec_fill [OF init(1)]) (simp_all add: TimedLRUCache_init_def)
    have k1: "\<not> od_contains k1 (?E as)"
      using assms(1) by (simp add: od_contains_iff keys_entries)
    have m: "map_of (cache c1) k1 = Some ?item" by (simp add: c1)
    have ne: "\<not> expired (ttl c1) ct (time_added ?item)" by (simp add: c1 expired_def)
    have f: "filter (\<lambda>p. fst p \<noteq> k1) (cache c1) = ?E as"
      by (simp add: c1 filter_absent [OF k1])
    have s2: "TimedLRUCache_get ct c1 k1 = Inr (v k1, c2)"
      using get_fresh [OF m ne] unfolding f by (simp add: c2_def)
    have s3: "exec (add_ops now v ts bs) c2 = Inr (replicate (length bs) Unit, c3)"
      unfolding c3_def using assms(1)
      by (intro exec_fill [OF c2(2)]) (auto simp: c2 keys_entries image_Un)
    have ne3: "cache c3 \<noteq> []" by (simp add: c3)
    have fresh: "\<not> od_contains k' (cache c3)"
      using assms(2) by (auto simp: c3 od_contains_iff keys_entries image_Un)
    have s4: "TimedLRUCache_add n' c3 k' v' ts' = Inr c4"
      unfolding c4_def by (rule add_full_fresh_key [OF c3(2) ne3 fresh])
    have run: "exec (add_ops now v ts (k1 # as) @ [Get ct k1] @ add_ops now v ts bs
                       @ [Add n' k' v' ts']) ?init
        = Inr (replicate (length (k1 # as)) Unit @ [Got (v k1)] @ replicate (length bs) Unit
                 @ [Unit], c4)"
      using s1 s2 s3 s4 by (simp add: exec_append)
    have out: "(replicate (length (k1 # as)) Unit @ [Got (v k1)] @ replicate (length bs) Unit
                 @ [Unit]) ! length (k1 # as) = Got (v k1)"
      by (simp add: nth_append)
    have k3: "map fst (cache c3) = as @ [k1] @ bs"
      by (simp add: c3 entry_def comp_def)
    have "map fst (cache c4) = tl (map fst (cache c3)) @ [k']"
      by (simp add: c4_def map_tl)
    then have keys: "map fst (cache c4) = tl (as @ [k1] @ bs) @ [k']"
      by (simp only: k3)
    have "as \<noteq> [] \<longrightarrow> map fst (cache c4) = tl as @ [k1] @ bs @ [k']"
      by (simp add: keys)
    moreover have "as = [] \<longrightarrow> map fst (cache c4) = bs @ [k']"
      by (simp add: keys)
    ultimately show ?thesis using run out by blast
  qed
qed

theorem lru_order_witness:
  "(\<exists>outs c'. exec [Add 0 (1::nat) (Some (10::nat)) None, Add 0 2 (Some 10) None,
                    Add 7 3 (Some 30) None] (TimedLRUCache_init (Some 2) None) = Inr (outs, c')
       \<and> map fst (cache c') = [2, 3])
   \<and> (\<exists>outs c'. exec [Add 0 (1::nat) (Some (10::nat)) None, Add 0 2 (Some 10) None, Get 5 1,
                    Add 7 3 (Some 30) None] (TimedLRUCache_init (Some 2) None) = Inr (outs, c')
       \<and> map fst (cache c') = [1, 3])
   \<and> (\<exists>outs c'. exec [Add 0 (1::nat) (Some (10::nat)) None, Get 5 1, Add 0 2 (Some 10) None,
                    Add 7 3 (Some 30) None] (TimedLRUCache_init (Some 2) None) = Inr (outs, c')
       \<and> map fst (cache c') = [2, 3])"
proof -
  have a: "distinct ((1::nat) # [2] @ [])" by simp
  have b: "(3::nat) \<notin> set (1 # [2] @ [])" by simp
  have a': "distinct ((1::nat) # [] @ [2])" by simp
  have b': "(3::nat) \<notin> set (1 # [] @ [2])" by simp
  note late = lru_order [OF a b, where now = "\<lambda>_. 0" and v = "\<lambda>_. Some (10::nat)"
      and ts = "\<lambda>_. None" and n' = 7 and v' = "Some 30" and ts' = None and ct = 5]
  note early = lru_order [OF a' b', where now = "\<lambda>_. 0" and v = "\<lambda>_. Some (10::nat)"
      and ts = "\<lambda>_. None" and n' = 7 and v' = "Some 30" and ts' = None and ct = 5]
  from late [THEN conjunct1]
  have p: "\<exists>outs c'. exec [Add 0 (1::nat) (Some (10::nat)) None, Add 0 2 (Some 10) None,
                    Add 7 3 (Some 30) None] (TimedLRUCache_init (Some 2) None) = Inr (outs, c')
       \<and> map fst (cache c') = [2, 3]"
    by (simp add: add_ops_def del: exec.simps)
  from late [THEN conjunct2]
  have q: "\<exists>outs c'. exec [Add 0 (1::nat) (Some (10::nat)) None, Add 0 2 (Some 10) None, Get 5 1,
                    Add 7 3 (Some 30) None] (TimedLRUCache_init (Some 2) None) = Inr (outs, c')
       \<and> map fst (cache c') = [1, 3]"
    by (auto simp add: add_ops_def simp del: exec.simps)
  from early [THEN conjunct2]
  have r: "\<exists>outs c'. exec [Add 0 (1::nat) (Some (10::nat)) None, Get 5 1, Add 0 2 (Some 10) None,
                    Add 7 3 (Some 30) None] (TimedLRUCache_init (Some 2) None) = Inr (outs, c')
       \<and> map fst (cache c') = [2, 3]"
    by (auto simp add: add_ops_def simp del: exec.simps)
  from p q r show ?thesis by (intro conjI)
qed

subsection \<open>C8\<close>

text \<open>
  C8. Whenever \<^verbatim>\<open>get(k)\<close> runs, the items of all keys other than \<open>k\<close> (their values,
  their timestamps and their order) are the same before and after, and so is the
  configuration. When \<open>k\<close> is not present, \<^verbatim>\<open>get\<close> answers \<^verbatim>\<open>None\<close> and the whole engine is
  unchanged. When the entry of \<open>k\<close> is stale, \<^verbatim>\<open>get\<close> answers \<^verbatim>\<open>None\<close> and the new
  dictionary is the old one without \<open>k\<close>.
\<close>

theorem get_absent_frame:
  "\<exists>r c'. TimedLRUCache_get ct c key = Inr (r, c')
     \<and> max_size c' = max_size c \<and> ttl c' = ttl c
     \<and> filter (\<lambda>p. fst p \<noteq> key) (cache c') = filter (\<lambda>p. fst p \<noteq> key) (cache c)
     \<and> (\<not> od_contains key (cache c) \<longrightarrow> r = None \<and> c' = c)
     \<and> (\<forall>item. map_of (cache c) key = Some item \<and> expired (ttl c) ct (time_added item) \<longrightarrow>
           r = None \<and> cache c' = filter (\<lambda>p. fst p \<noteq> key) (cache c)
           \<and> \<not> od_contains key (cache c'))"
proof (cases rule: get_cases [of key c ct])
  case absent
  then show ?thesis by (simp add: od_contains_def)
next
  case (stale item)
  then show ?thesis by (simp add: od_contains_def map_of_filter_neq)
next
  case (fresh item)
  then show ?thesis by (simp add: od_contains_def)
qed

theorem get_absent_frame_witness:
  "\<exists>r c'. TimedLRUCache_get 10 \<lparr>max_size = None, ttl = Some 5,
             cache = [(1::nat, Item (Some (7::nat)) 0), (2, Item (Some 8) 9)]\<rparr> 1 = Inr (r, c')
     \<and> r = None \<and> cache c' = [(2, Item (Some 8) 9)]"
  using get_absent_frame [of 10 "\<lparr>max_size = None, ttl = Some 5,
             cache = [(1::nat, Item (Some (7::nat)) 0), (2, Item (Some 8) 9)]\<rparr>" 1]
  by (auto simp: expired_def fsub_eval)

subsection \<open>C9\<close>

text \<open>
  C9. The engine's \<^verbatim>\<open>clear\<close> removes every entry, so that \<^verbatim>\<open>len\<close> is 0 afterwards, and
  leaves \<^verbatim>\<open>max_size\<close> and \<^verbatim>\<open>ttl\<close> as they were. The wrapper's \<^verbatim>\<open>clear\<close> clears its engine
  in the same way and sets \<^verbatim>\<open>hits\<close> and \<^verbatim>\<open>misses\<close> to 0.
\<close>

theorem clear_empties_and_keeps_config:
  "TimedLRUCache_len (TimedLRUCache_clear c) = 0
   \<and> cache (TimedLRUCache_clear c) = []
   \<and> max_size (TimedLRUCache_clear c) = max_size c
   \<and> ttl (TimedLRUCache_clear c) = ttl c
   \<and> timed_lru_cache (Wrapper_clear w) = TimedLRUCache_clear (timed_lru_cache w)
   \<and> hits (Wrapper_clear w) = 0
   \<and> misses (Wrapper_clear w) = 0
   \<and> info_hits (Wrapper_cache_info (Wrapper_clear w)) = 0
   \<and> info_misses (Wrapper_cache_info (Wrapper_clear w)) = 0
   \<and> current_size (Wrapper_cache_info (Wrapper_clear w)) = 0
   \<and> info_max_size (Wrapper_cache_info (Wrapper_clear w)) = wrapper_max_size w
   \<and> wrapped (Wrapper_clear w) = wrapped w"
  by (simp add: TimedLRUCache_clear_def TimedLRUCache_len_def Wrapper_clear_def
      Wrapper_cache_info_def)

subsection \<open>C10\<close>

text \<open>
  C10. An engine constructed with \<^verbatim>\<open>max_size = 0\<close> and one constructed without
  \<^verbatim>\<open>max_size\<close> answer every sequence of operations alike and end with the same
  dictionary; so do an engine with \<^verbatim>\<open>ttl = 0\<close> and one without \<^verbatim>\<open>ttl\<close>. The capacity
  test is never true for \<^verbatim>\<open>max_size = 0\<close> and the staleness test is never true for
  \<^verbatim>\<open>ttl = 0\<close>: with \<^verbatim>\<open>max_size = 0\<close> an \<^verbatim>\<open>add\<close> evicts nothing, and \<^verbatim>\<open>len\<close> grows by one
  for each new key; with \<^verbatim>\<open>ttl = 0\<close> a \<^verbatim>\<open>get\<close> of a present key returns its value at
  every clock reading. Construction itself never fails.
\<close>

theorem zero_is_unconfigured:
  "(\<exists>outs c1 c2. exec ops (TimedLRUCache_init (Some 0) t) = Inr (outs, c1)
        \<and> exec ops (TimedLRUCache_init None t) = Inr (outs, c2) \<and> cache c1 = cache c2)
   \<and> (\<exists>outs c1 c2. exec ops (TimedLRUCache_init ms (Some 0)) = Inr (outs, c1)
        \<and> exec ops (TimedLRUCache_init ms None) = Inr (outs, c2) \<and> cache c1 = cache c2)
   \<and> \<not> cap_reached (Some 0) d
   \<and> \<not> expired (Some 0) ct ta
   \<and> (max_size c = Some 0 \<longrightarrow>
        (\<exists>c'. TimedLRUCache_add now c key v ts = Inr c'
           \<and> cache c' = filter (\<lambda>p. fst p \<noteq> key) (cache c) @ [(key, Item v (stamp now ts))]
           \<and> (\<not> od_contains key (cache c) \<longrightarrow>
                 TimedLRUCache_len c' = TimedLRUCache_len c + 1)))
   \<and> (ttl c = Some 0 \<and> map_of (cache c) key = Some item \<longrightarrow>
        (\<exists>c'. TimedLRUCache_get ct c key = Inr (val item, c') \<and> od_contains key (cache c')))"
proof (intro conjI impI)
  show "\<exists>outs c1 c2. exec ops (TimedLRUCache_init (Some 0) t) = Inr (outs, c1)
        \<and> exec ops (TimedLRUCache_init None t) = Inr (outs, c2) \<and> cache c1 = cache c2"
    by (rule exec_same_tests) (simp_all add: TimedLRUCache_init_def)
  show "\<exists>outs c1 c2. exec ops (TimedLRUCache_init ms (Some 0)) = Inr (outs, c1)
        \<and> exec ops (TimedLRUCache_init ms None) = Inr (outs, c2) \<and> cache c1 = cache c2"
    by (rule exec_same_tests) (simp_all add: TimedLRUCache_init_def)
  show "\<not> cap_reached (Some 0) d" by (simp add: cap_reached_def)
  show "\<not> expired (Some 0) ct ta" by (simp add: expired_def)
next
  assume "max_size c = Some 0"
  then show "\<exists>c'. TimedLRUCache_add now c key v ts = Inr c'
           \<and> cache c' = filter (\<lambda>p. fst p \<noteq> key) (cache c) @ [(key, Item v (stamp now ts))]
           \<and> (\<not> od_contains key (cache c) \<longrightarrow>
                 TimedLRUCache_len c' = TimedLRUCache_len c + 1)"
    by (simp add: add_closed cap_reached_def filter_absent TimedLRUCache_len_def)
next
  assume a: "ttl c = Some 0 \<and> map_of (cache c) key = Some item"
  then have "\<not> expired (ttl c) ct (time_added item)" by (simp add: expired_def)
  from get_fresh [OF _ this, of key] a
  show "\<exists>c'. TimedLRUCache_get ct c key = Inr (val item, c') \<and> od_contains key (cache c')"
    by (simp add: contains_moved)
qed

theorem zero_is_unconfigured_witness:
  "(\<exists>c'. TimedLRUCache_add 3 \<lparr>max_size = Some 0, ttl = Some 0,
            cache = [(1::nat, Item (Some (5::nat)) 0)]\<rparr> 2 (Some 6) None = Inr c'
       \<and> cache c' = [(1, Item (Some 5) 0), (2, Item (Some 6) 3)]
       \<and> TimedLRUCache_len c' = 2)
   \<and> (\<exists>c'. TimedLRUCache_get 1000 \<lparr>max_size = Some 0, ttl = Some 0,
            cache = [(1::nat, Item (Some (5::nat)) 0)]\<rparr> 1 = Inr (Some 5, c'))"
proof -
  let ?c = "\<lparr>max_size = Some 0, ttl = Some 0, cache = [(1::nat, Item (Some (5::nat)) 0)]\<rparr>"
  note inst = zero_is_unconfigured [where c = ?c and key = 2 and now = 3 and v = "Some 6"
      and ts = None and ops = "[]" and t = None and ms = None and d = "[]" and ct = 0 and ta = 0
      and item = "Item None 0"]
  note inst' = zero_is_unconfigured [where c = ?c and key = 1 and now = 3 and v = "Some 6"
      and ts = None and ops = "[]" and t = None and ms = None and d = "[]" and ct = 1000
      and ta = 0 and item = "Item (Some 5) 0"]
  have a: "max_size ?c = Some 0" by simp
  have b: "ttl ?c = Some 0 \<and> map_of (cache ?c) 1 = Some (Item (Some 5) 0)" by simp
  note p = inst [THEN conjunct2, THEN conjunct2, THEN conjunct2, THEN conjunct2,
      THEN conjunct1, THEN mp, OF a]
  note q = inst' [THEN conjunct2, THEN conjunct2, THEN conjunct2, THEN conjunct2,
      THEN conjunct2, THEN mp, OF b]
  from p have p': "\<exists>c'. TimedLRUCache_add 3 ?c 2 (Some 6) None = Inr c'
       \<and> cache c' = [(1, Item (Some 5) 0), (2, Item (Some 6) 3)]
       \<and> TimedLRUCache_len c' = 2"
    by (auto simp: stamp_def od_contains_def TimedLRUCache_len_def)
  from q have q': "\<exists>c'. TimedLRUCache_get 1000 ?c 1 = Inr (Some 5, c')"
    by auto
  from p' q' show ?thesis by (intro conjI)
qed

end
